theory Spec2Isabelle
  imports Complex_Main "HOL-Library.Word" "HOL-Library.Signed_Division"
begin

unbundle bit_operations_syntax

chapter \<open>A shallow embedding of the mallob scheduler core\<close>

text \<open>
  The development models the parts of the scheduler that its specification makes
  checkable statements about: the event map of the event-driven balancer
  (\<^verbatim>\<open>balancing/event_driven_balancer.hpp\<close>), the worker's placement and volume handlers
  (\<^verbatim>\<open>worker.cpp\<close>, \<^verbatim>\<open>worker.h\<close>), the job's demand curve and life cycle (\<^verbatim>\<open>app/job.cpp\<close>),
  the bisection rounding of the cutoff-priority balancer
  (\<^verbatim>\<open>balancing/cutoff_priority_balancer.cpp\<close>) and the clause buffer merge
  (\<^verbatim>\<open>app/sat_clause_communicator.cpp\<close>).

  Conventions: a failed \<^verbatim>\<open>assert\<close>, an exception and undefined behaviour are error values;
  a handler returns the new worker state together with the list of transport actions it
  issued, in program order; a C \<^verbatim>\<open>float\<close> or \<^verbatim>\<open>double\<close> value is the real number it
  denotes and every arithmetic operation on it rounds to the format, except where a value
  is only copied bit for bit, where it is its 32-bit pattern.
\<close>

section \<open>Definitions\<close>

datatype error = AssertionFailed | OutOfRange | UndefinedBehaviour | Diverges

subsection \<open>Floating-point arithmetic\<close>

text \<open>
  A binary floating-point format has p bits of precision and the exponents from emin to
  emax. \<open>round_float p emin emax x\<close> is the number of the format nearest to the real x,
  a tie going to the even mantissa, which is how the arithmetic of \<^verbatim>\<open>float\<close> and
  \<^verbatim>\<open>double\<close> rounds its exact results: \<open>float_exponent\<close> finds the exponent e with
  2^e \<le> |x| < 2^(e+1), which is emin throughout the subnormal range, and the mantissa is
  rounded to an integer. A result beyond the largest finite number is 2^(emax+1) with
  the sign of x, which stands for the infinity of that sign. \<open>fl32\<close> and \<open>fl64\<close> are the
  roundings to \<^verbatim>\<open>float\<close> and to \<^verbatim>\<open>double\<close>.
\<close>

definition round_even :: "real \<Rightarrow> int" where
  "round_even r =
     (let f = \<lfloor>r\<rfloor>; d = r - of_int f
      in if d < 1 / 2 then f else if d > 1 / 2 then f + 1 else if even f then f else f + 1)"

definition float_exponent :: "int \<Rightarrow> int \<Rightarrow> real \<Rightarrow> int option" where
  "float_exponent emin emax x = find (\<lambda>e. \<bar>x\<bar> < 2 powi (e + 1)) [emin..emax]"

definition round_float :: "int \<Rightarrow> int \<Rightarrow> int \<Rightarrow> real \<Rightarrow> real" where
  "round_float p emin emax x =
     (case float_exponent emin emax x of
        None \<Rightarrow> sgn x * 2 powi (emax + 1)
      | Some e \<Rightarrow> let u = 2 powi (e - p + 1) in of_int (round_even (x / u)) * u)"

definition fl32 :: "real \<Rightarrow> real" where
  "fl32 = round_float 24 (- 126) 127"


text \<open>
  Subtraction and division of two \<^verbatim>\<open>float\<close> values, with the cases of IEEE 754 for
  infinite operands and for a zero divisor; the result \<open>None\<close> is a NaN. The sign of a
  zero is not modelled.
\<close>

definition infinite32 :: "real \<Rightarrow> bool" where
  "infinite32 x = (\<bar>x\<bar> \<ge> 2 ^ 128)"




subsection \<open>Event maps of the event-driven balancer\<close>

text \<open>
  \<^verbatim>\<open>struct Event\<close>: three \<^verbatim>\<open>int\<close> fields and a \<^verbatim>\<open>float\<close>. The integers are 32-bit
  words read as two's complement; the priority is carried as the 32-bit pattern of the
  float, which is all that \<^verbatim>\<open>merge\<close>, \<^verbatim>\<open>serialize\<close> and \<^verbatim>\<open>deserialize\<close> do with it
  (they copy it).
\<close>

record Event =
  jobId :: "32 word"
  epoch :: "32 word"
  demand :: "32 word"
  priority :: "32 word"

definition dominates :: "Event \<Rightarrow> Event \<Rightarrow> bool" where
  "dominates this other = (sint (epoch this) > sint (epoch other))"

text \<open>
  \<^verbatim>\<open>std::map<int, Event> _map\<close>: the entries in iteration order, that is by ascending
  key. \<open>map_put\<close> is \<^verbatim>\<open>m[k] = v\<close>: it overwrites the entry of an existing key and
  otherwise inserts the entry at its place in the order.
\<close>

type_synonym EventMap = "(int \<times> Event) list"

fun map_put :: "int \<Rightarrow> Event \<Rightarrow> EventMap \<Rightarrow> EventMap" where
  "map_put k v [] = [(k, v)]"
| "map_put k v ((k', v') # m) =
     (if k < k' then (k, v) # (k', v') # m
      else if k = k' then (k, v) # m
      else (k', v') # map_put k v m)"

text \<open>
  The class invariant of \<^verbatim>\<open>EventMap\<close>: the keys ascend strictly (it is a \<^verbatim>\<open>std::map\<close>),
  and every entry is stored under its own job id: \<^verbatim>\<open>insertIfNovel\<close> and \<^verbatim>\<open>deserialize\<close>
  write \<^verbatim>\<open>_map[ev.jobId] = ev\<close>, \<^verbatim>\<open>merge\<close> copies entries with their keys, and the
  field is private.
\<close>

definition EventMap_inv :: "EventMap \<Rightarrow> bool" where
  "EventMap_inv m =
     (sorted_wrt (<) (map fst m) \<and> list_all (\<lambda>(k, e). k = sint (jobId e)) m)"

text \<open>
  \<^verbatim>\<open>EventMap::merge\<close>: the loop walks both maps with one iterator each (the first two
  arguments are what the iterators have not passed yet) and fills \<^verbatim>\<open>newMap\<close>.
\<close>

fun merge_loop :: "EventMap \<Rightarrow> EventMap \<Rightarrow> EventMap \<Rightarrow> EventMap" where
  "merge_loop ((k, e) # it) ((k', e') # otherIt) newMap =
     (if k = k' then
        merge_loop it otherIt (map_put k (if dominates e e' then e else e') newMap)
      else if k < k' then
        merge_loop it ((k', e') # otherIt) (map_put k e newMap)
      else
        merge_loop ((k, e) # it) otherIt (map_put k' e' newMap))"
| "merge_loop ((k, e) # it) [] newMap = merge_loop it [] (map_put k e newMap)"
| "merge_loop [] ((k', e') # otherIt) newMap = merge_loop [] otherIt (map_put k' e' newMap)"
| "merge_loop [] [] newMap = newMap"

definition EventMap_merge :: "EventMap \<Rightarrow> EventMap \<Rightarrow> EventMap" where
  "EventMap_merge m other = merge_loop m other []"

text \<open>
  The precondition of the merge laws: two entries of the same key and the same epoch
  carry the same demand and priority (what \<^verbatim>\<open>filterBy\<close> asserts).
\<close>

definition agree :: "EventMap \<Rightarrow> EventMap \<Rightarrow> bool" where
  "agree a b =
     list_all (\<lambda>(k, e). list_all (\<lambda>(k', e').
        k = k' \<and> epoch e = epoch e' \<longrightarrow> demand e = demand e' \<and> priority e = priority e') b) a"

text \<open>Proof vocabulary: the entry a merge keeps for one key, and agreement of two lookups.\<close>

definition combine :: "Event option \<Rightarrow> Event option \<Rightarrow> Event option" where
  "combine x y = (case x of None \<Rightarrow> y
     | Some e \<Rightarrow> (case y of None \<Rightarrow> Some e
         | Some e' \<Rightarrow> Some (if dominates e e' then e else e')))"

definition tie_eq :: "Event option \<Rightarrow> Event option \<Rightarrow> bool" where
  "tie_eq x y = (\<forall>e e'. x = Some e \<longrightarrow> y = Some e' \<longrightarrow> epoch e = epoch e' \<longrightarrow> e = e')"

subsection \<open>Serialisation of event maps\<close>

text \<open>
  \<^verbatim>\<open>memcpy\<close> of a 4-byte object to and from a byte vector, least significant byte
  first. \<open>memcpy dst i src\<close> overwrites \<open>length src\<close> bytes of \<open>dst\<close> from offset
  \<open>i\<close>; \<^verbatim>\<open>serialize\<close> sizes its vector so that every copy stays inside it.
\<close>

definition int_bytes :: "32 word \<Rightarrow> 8 word list" where
  "int_bytes w = [ucast w, ucast (drop_bit 8 w), ucast (drop_bit 16 w), ucast (drop_bit 24 w)]"

definition bytes_int :: "8 word list \<Rightarrow> 32 word" where
  "bytes_int bs = ucast (bs ! 0) OR push_bit 8 (ucast (bs ! 1))
     OR push_bit 16 (ucast (bs ! 2)) OR push_bit 24 (ucast (bs ! 3))"

definition memcpy :: "8 word list \<Rightarrow> nat \<Rightarrow> 8 word list \<Rightarrow> 8 word list" where
  "memcpy dst i src = take i dst @ src @ drop (i + length src) dst"

definition size_per_event :: nat where
  "size_per_event = 3 * 4 + 4"

fun serialize_loop :: "EventMap \<Rightarrow> nat \<Rightarrow> 8 word list \<Rightarrow> 8 word list" where
  "serialize_loop [] i result = result"
| "serialize_loop ((k, e) # m) i result =
     (let r1 = memcpy result i (int_bytes (jobId e));
          r2 = memcpy r1 (i + 4) (int_bytes (epoch e));
          r3 = memcpy r2 (i + 8) (int_bytes (demand e));
          r4 = memcpy r3 (i + 12) (int_bytes (priority e))
      in serialize_loop m (i + 16) r4)"

definition serialize :: "EventMap \<Rightarrow> 8 word list" where
  "serialize m = serialize_loop m 0 (replicate (length m * size_per_event) 0)"

text \<open>
  \<^verbatim>\<open>EventMap::deserialize\<close>: a payload of at most \<^verbatim>\<open>sizeof(int)\<close> bytes is the empty
  map; the assertion wants a whole number of events; the loop reads
  \<^verbatim>\<open>size / _size_per_event\<close> events, so each read of four bytes lies inside the payload.
\<close>

fun deserialize_loop :: "8 word list \<Rightarrow> nat \<Rightarrow> nat \<Rightarrow> EventMap \<Rightarrow> EventMap" where
  "deserialize_loop packed i 0 m = m"
| "deserialize_loop packed i (Suc n) m =
     (let newEvent = \<lparr> jobId = bytes_int (take 4 (drop i packed)),
                       epoch = bytes_int (take 4 (drop (i + 4) packed)),
                       demand = bytes_int (take 4 (drop (i + 8) packed)),
                       priority = bytes_int (take 4 (drop (i + 12) packed)) \<rparr>
      in deserialize_loop packed (i + 16) n (map_put (sint (jobId newEvent)) newEvent m))"

definition deserialize :: "8 word list \<Rightarrow> error + EventMap" where
  "deserialize packed =
     (if length packed \<le> 4 then Inr []
      else if \<not> (packed = [] \<or> length packed mod size_per_event = 0) then Inl AssertionFailed
      else Inr (deserialize_loop packed 0 (length packed div size_per_event) []))"

text \<open>Proof vocabulary: the bytes of one event and of a whole map.\<close>

definition enc1 :: "Event \<Rightarrow> 8 word list" where
  "enc1 e = int_bytes (jobId e) @ int_bytes (epoch e) @ int_bytes (demand e) @ int_bytes (priority e)"

fun enc :: "EventMap \<Rightarrow> 8 word list" where
  "enc [] = []"
| "enc ((k, e) # m) = enc1 e @ enc m"

text \<open>Three event maps used as concrete inputs below.\<close>

definition ev :: "32 word \<Rightarrow> 32 word \<Rightarrow> 32 word \<Rightarrow> 32 word \<Rightarrow> Event" where
  "ev j e d p = \<lparr> jobId = j, epoch = e, demand = d, priority = p \<rparr>"

definition ex_A :: EventMap where
  "ex_A = [(1, ev 1 2 3 4), (5, ev 5 1 1 1)]"

definition ex_B :: EventMap where
  "ex_B = [(1, ev 1 3 9 9), (2, ev 2 0 0 0)]"

definition ex_C :: EventMap where
  "ex_C = [(1, ev 1 2 3 4), (7, ev 7 6 5 4)]"

subsection \<open>Jobs and placement tokens\<close>

text \<open>
  The job states the sources name. The enumeration itself is declared in a header that is
  not among the sources; \<^verbatim>\<open>worker.cpp\<close> and \<^verbatim>\<open>cutoff_priority_balancer.cpp\<close> use the
  initialising and stand-by states, \<^verbatim>\<open>job.cpp\<close> the four states of its transitions.
\<close>

datatype JobState = INACTIVE | COMMITTED | ACTIVE | SUSPENDED | PAST | STANDBY
  | INITIALIZING_TO_ACTIVE | INITIALIZING_TO_COMMITTED
  | INITIALIZING_TO_SUSPENDED | INITIALIZING_TO_PAST

text \<open>
  \<^verbatim>\<open>JobRequest\<close> and \<^verbatim>\<open>JobSignature\<close> with the fields the handlers read and write.
  \<open>mkJobRequest\<close> is the six-argument constructor call of \<^verbatim>\<open>updateVolume\<close>; the
  fields it does not receive are zero.
\<close>

record JobRequest =
  req_jobId :: int
  rootRank :: int
  requestingNodeRank :: int
  requestedNodeIndex :: int
  timeOfBirth :: real
  numHops :: int
  fullTransfer :: int
  revision :: int

definition mkJobRequest :: "int \<Rightarrow> int \<Rightarrow> int \<Rightarrow> int \<Rightarrow> real \<Rightarrow> int \<Rightarrow> JobRequest" where
  "mkJobRequest j rootR requesting idx birth hops =
     \<lparr> req_jobId = j, rootRank = rootR, requestingNodeRank = requesting,
       requestedNodeIndex = idx, timeOfBirth = birth, numHops = hops,
       fullTransfer = 0, revision = 0 \<rparr>"

record JobSignature =
  sig_jobId :: int
  sig_rootRank :: int
  sig_revision :: int
  transferSize :: int

text \<open>
  The local fragment of a job. The tree fields are those behind the accessors the worker
  calls (\<^verbatim>\<open>getIndex\<close>, \<^verbatim>\<open>hasLeftChild\<close>, \<^verbatim>\<open>getLeftChildNodeRank\<close>, ...): a child's rank
  is readable whether or not the child is attached, since \<^verbatim>\<open>updateVolume\<close> sends the
  request for a missing child to \<^verbatim>\<open>getLeftChildNodeRank()\<close>. \<open>lastVolume\<close> is what
  \<^verbatim>\<open>setLastVolume\<close> stores, \<open>volume\<close> is the member \<^verbatim>\<open>_volume\<close> of \<^verbatim>\<open>job.cpp\<close>; the
  last five fields are read by \<^verbatim>\<open>Job::getDemand\<close>.
\<close>

record Job =
  job_id :: int
  state :: JobState
  index :: int
  rootNodeRank :: int
  parentNodeRank :: int
  hasLeftChild :: bool
  leftChildNodeRank :: int
  hasRightChild :: bool
  rightChildNodeRank :: int
  hasJobDescription :: bool
  lastVolume :: int
  volume :: int
  commitment :: "JobRequest option"
  tree_commSize :: int
  growth_period :: real
  continuous_growth :: bool
  max_demand :: int
  time_of_activation :: real

definition isInState :: "Job \<Rightarrow> JobState list \<Rightarrow> bool" where
  "isInState job ss = (state job \<in> set ss)"

definition isNotInState :: "Job \<Rightarrow> JobState list \<Rightarrow> bool" where
  "isNotInState job ss = (state job \<notin> set ss)"

definition isRoot :: "Job \<Rightarrow> bool" where
  "isRoot job = (index job = 0)"

text \<open>
  Modelled from the spec: \<^verbatim>\<open>Job::getLeftChildIndex\<close> and \<^verbatim>\<open>Job::getRightChildIndex\<close> are
  declared in the job header, which is not among the sources; the data model puts the
  left child of index i at 2i+1 and the right child at 2i+2.
\<close>

definition getLeftChildIndex :: "Job \<Rightarrow> int" where
  "getLeftChildIndex job = 2 * index job + 1"

definition getRightChildIndex :: "Job \<Rightarrow> int" where
  "getRightChildIndex job = 2 * index job + 2"

text \<open>
  Modelled from the spec: \<^verbatim>\<open>unsetLeftChild\<close>, \<^verbatim>\<open>unsetRightChild\<close> and
  \<^verbatim>\<open>setLastVolume\<close> are declared in the job header, which is not among the sources;
  pruning a child unsets the pointer, and the setter stores the volume last assigned.
\<close>

definition unsetLeftChild :: "Job \<Rightarrow> Job" where
  "unsetLeftChild job = job\<lparr>hasLeftChild := False\<rparr>"

definition unsetRightChild :: "Job \<Rightarrow> Job" where
  "unsetRightChild job = job\<lparr>hasRightChild := False\<rparr>"

definition setLastVolume :: "int \<Rightarrow> Job \<Rightarrow> Job" where
  "setLastVolume v job = job\<lparr>lastVolume := v\<rparr>"

text \<open>
  \<^verbatim>\<open>Job::suspend\<close>, \<^verbatim>\<open>Job::updateJobTree\<close> and \<^verbatim>\<open>Job::commit\<close> of \<^verbatim>\<open>job.cpp\<close>.
  \<^verbatim>\<open>assertState\<close> and \<^verbatim>\<open>assert\<close> fail with \<open>AssertionFailed\<close>; the calls into the
  solver (\<^verbatim>\<open>appl_suspend\<close>) and the log lines have no effect on the state modelled here.
\<close>

definition suspend :: "Job \<Rightarrow> error + Job" where
  "suspend job =
     (if state job \<noteq> ACTIVE then Inl AssertionFailed
      else Inr (job\<lparr>state := SUSPENDED, volume := 0\<rparr>))"

definition updateJobTree :: "int \<Rightarrow> int \<Rightarrow> int \<Rightarrow> Job \<Rightarrow> Job" where
  "updateJobTree idx rootR parent job =
     (let root' = (if idx = 0 then - 1 else rootR)
      in job\<lparr>index := idx, rootNodeRank := root', parentNodeRank := parent\<rparr>)"

definition commit :: "JobRequest \<Rightarrow> Job \<Rightarrow> error + Job" where
  "commit req job =
     (if state job = ACTIVE then Inl AssertionFailed
      else if state job = PAST then Inl AssertionFailed
      else Inr (updateJobTree (requestedNodeIndex req) (rootRank req) (requestingNodeRank req)
                  (job\<lparr>commitment := Some req\<rparr>)))"

text \<open>
  \<^verbatim>\<open>new SatJob(params, size, rank, jobId, ...)\<close>: the constructor of \<^verbatim>\<open>job.cpp\<close> sets the
  id, the state \<^verbatim>\<open>INACTIVE\<close> and the communicator size; \<open>params\<close> stands for the
  remaining members as the constructor leaves them.
\<close>

definition newJob :: "int \<Rightarrow> int \<Rightarrow> Job \<Rightarrow> Job" where
  "newJob commSz jid params =
     params\<lparr> job_id := jid, state := INACTIVE, tree_commSize := commSz \<rparr>"

subsection \<open>The worker (worker.h, worker.cpp)\<close>

text \<open>
  What a handler hands to the transport: \<^verbatim>\<open>MyMpi::isend(comm, dest, tag, payload)\<close> and
  \<^verbatim>\<open>MyMpi::irecv(comm, source, tag, size)\<close>.
\<close>

datatype Payload = IntPair int int | Request JobRequest | Signature JobSignature

datatype Tag = MSG_FIND_NODE | MSG_REQUEST_BECOME_CHILD | MSG_ACCEPT_BECOME_CHILD
  | MSG_REJECT_BECOME_CHILD | MSG_ACK_ACCEPT_BECOME_CHILD | MSG_SEND_JOB_DESCRIPTION
  | MSG_UPDATE_VOLUME | MSG_WORKER_DEFECTING

datatype Action = isend int Tag Payload | irecv int Tag int

text \<open>
  The members of \<^verbatim>\<open>class Worker\<close> that the handlers below touch. \<^verbatim>\<open>currentJob\<close> points
  into the job table, so it is the key of the job it points to, and a write through the
  pointer is a write to the table.
\<close>

record Worker =
  worldRank :: int
  commSize :: int
  jobs :: "int \<rightharpoonup> Job"
  jobCommitments :: "int \<rightharpoonup> JobRequest"
  initializerThreads :: "int set"
  currentJob :: "int option"
  load :: int
  lastLoadChange :: real

definition hasJob :: "Worker \<Rightarrow> int \<Rightarrow> bool" where
  "hasJob w i = (jobs w i \<noteq> None)"

definition isIdle :: "Worker \<Rightarrow> bool" where
  "isIdle w = (load w = 0)"

definition hasJobCommitments :: "Worker \<Rightarrow> bool" where
  "hasJobCommitments w = (jobCommitments w \<noteq> Map.empty)"

definition maxJobHops :: "Worker \<Rightarrow> bool \<Rightarrow> int" where
  "maxJobHops w rootNode = (if rootNode then commSize w sdiv 2 else commSize w * 2)"

definition putJob :: "int \<Rightarrow> Job \<Rightarrow> Worker \<Rightarrow> Worker" where
  "putJob i job w = w\<lparr>jobs := (jobs w)(i \<mapsto> job)\<rparr>"

text \<open>\<^verbatim>\<open>Worker::setLoad\<close>; \<open>now\<close> is the reading of \<^verbatim>\<open>Timer::elapsedSeconds()\<close>.\<close>

definition setLoad :: "real \<Rightarrow> int \<Rightarrow> int \<Rightarrow> Worker \<Rightarrow> error + Worker" where
  "setLoad now ld whichJobId w =
     (if ld + load w \<noteq> 1 then Inl AssertionFailed
      else let w1 = w\<lparr>load := ld, lastLoadChange := now\<rparr> in
        if \<not> hasJob w1 whichJobId then Inl AssertionFailed
        else if ld = 1 then
          (if currentJob w1 \<noteq> None then Inl AssertionFailed
           else Inr (w1\<lparr>currentJob := Some whichJobId\<rparr>))
        else if ld = 0 then
          (if currentJob w1 = None then Inl AssertionFailed
           else Inr (w1\<lparr>currentJob := None\<rparr>))
        else Inr w1)"

text \<open>
  \<^verbatim>\<open>Worker::updateVolume\<close>. \<open>updateLeft\<close> and \<open>updateRight\<close> are its blocks
  ``Left child'' and ``Right child'': each returns the job as the block leaves it and the
  messages the block sends.
\<close>

definition updateLeft :: "real \<Rightarrow> int \<Rightarrow> int \<Rightarrow> Worker \<Rightarrow> Job \<Rightarrow> Job \<times> Action list" where
  "updateLeft now jid vol w job =
     (let nextIndex = getLeftChildIndex job in
      if hasLeftChild job then
        (if nextIndex \<ge> vol then unsetLeftChild job else job,
         [isend (leftChildNodeRank job) MSG_UPDATE_VOLUME (IntPair jid vol)])
      else if hasJobDescription job \<and> nextIndex < vol \<and> jobCommitments w jid = None then
        (job, [isend (leftChildNodeRank job) MSG_FIND_NODE
                 (Request (mkJobRequest jid (rootNodeRank job) (worldRank w) nextIndex now 0))])
      else (job, []))"

definition updateRight :: "real \<Rightarrow> int \<Rightarrow> int \<Rightarrow> Worker \<Rightarrow> Job \<Rightarrow> Job \<times> Action list" where
  "updateRight now jid vol w job =
     (let nextIndex = getRightChildIndex job in
      if hasRightChild job then
        (if nextIndex \<ge> vol then unsetRightChild job else job,
         [isend (rightChildNodeRank job) MSG_UPDATE_VOLUME (IntPair jid vol)])
      else if hasJobDescription job \<and> nextIndex < vol \<and> jobCommitments w jid = None then
        (job, [isend (rightChildNodeRank job) MSG_FIND_NODE
                 (Request (mkJobRequest jid (rootNodeRank job) (worldRank w) nextIndex now 0))])
      else (job, []))"

definition updateVolume :: "real \<Rightarrow> int \<Rightarrow> int \<Rightarrow> Worker \<Rightarrow> error + (Worker \<times> Action list)" where
  "updateVolume now jid vol w =
     (case jobs w jid of
        None \<Rightarrow> Inl AssertionFailed
      | Some job0 \<Rightarrow>
          let job = setLastVolume vol job0 in
          if isNotInState job [ACTIVE, INITIALIZING_TO_ACTIVE] then Inr (putJob jid job w, [])
          else
            let thisIndex = index job;
                (job1, out1) = updateLeft now jid vol w job;
                (job2, out2) = updateRight now jid vol w job1
            in if thisIndex > 0 \<and> thisIndex \<ge> vol then
                 (case suspend job2 of
                    Inl e \<Rightarrow> Inl e
                  | Inr job3 \<Rightarrow>
                      (case setLoad now 0 jid (putJob jid job3 w) of
                         Inl e \<Rightarrow> Inl e
                       | Inr w' \<Rightarrow> Inr (w', out1 @ out2)))
               else Inr (putJob jid job2 w, out1 @ out2))"

text \<open>
  \<^verbatim>\<open>Worker::bounceJobRequest\<close>: the hop count goes up by one and the request goes to the
  next rank. The choice of that rank (a random draw or a pseudorandom permutation, both
  outside the sources) is the parameter \<open>nextRank\<close>.
\<close>

definition bounceJobRequest :: "int \<Rightarrow> JobRequest \<Rightarrow> Action list" where
  "bounceJobRequest nextRank request =
     (let request' = request\<lparr>numHops := numHops request + 1\<rparr>
      in [isend nextRank MSG_FIND_NODE (Request request')])"

text \<open>
  \<^verbatim>\<open>Worker::handleFindNode\<close>, in three parts. \<open>preempt\<close> is the body of the branch for
  a root request that exceeded its hops; its boolean is what it leaves in \<^verbatim>\<open>adopts\<close>.
  \<open>adopt\<close> is the block under \<^verbatim>\<open>if (adopts)\<close>. \<open>obsolete\<close> is the value of
  \<^verbatim>\<open>isRequestObsolete(req)\<close>, whose definition is not among the sources.
\<close>

definition preempt :: "real \<Rightarrow> JobRequest \<Rightarrow> Worker \<Rightarrow> error + (Worker \<times> Action list \<times> bool)" where
  "preempt now req w =
     (if (case jobs w (req_jobId req) of None \<Rightarrow> True
          | Some j \<Rightarrow> isNotInState j [ACTIVE, INITIALIZING_TO_ACTIVE]) then
        (case currentJob w of
           None \<Rightarrow> Inr (w, [], False)
         | Some cj \<Rightarrow>
             (case jobs w cj of
                None \<Rightarrow> Inl UndefinedBehaviour
              | Some job \<Rightarrow>
                  if isInState job [ACTIVE, INITIALIZING_TO_ACTIVE]
                     \<and> \<not> isRoot job \<and> \<not> hasLeftChild job \<and> \<not> hasRightChild job then
                    (case suspend job of
                       Inl e \<Rightarrow> Inl e
                     | Inr job' \<Rightarrow>
                         (case setLoad now 0 (job_id job) (putJob cj job' w) of
                            Inl e \<Rightarrow> Inl e
                          | Inr w' \<Rightarrow>
                              Inr (w', [isend (parentNodeRank job) MSG_WORKER_DEFECTING
                                          (IntPair (job_id job) (index job))], True)))
                  else Inr (w, [], False)))
      else Inr (w, [], False))"

definition adopt :: "Job \<Rightarrow> JobRequest \<Rightarrow> Worker \<Rightarrow> error + (Worker \<times> Action list)" where
  "adopt params req w =
     (if \<not> isIdle w then Inl AssertionFailed
      else
        let j = req_jobId req;
            (job, fullTr) =
              (case jobs w j of
                 None \<Rightarrow> (newJob (commSize w) j params, True)
               | Some jb \<Rightarrow> (jb, \<not> hasJobDescription jb \<and> j \<notin> initializerThreads w));
            req' = req\<lparr>fullTransfer := (if fullTr then 1 else 0)\<rparr>
        in case commit req' job of
             Inl e \<Rightarrow> Inl e
           | Inr job' \<Rightarrow>
               Inr ((putJob j job' w)\<lparr>jobCommitments := (jobCommitments w)(j \<mapsto> req')\<rparr>,
                    [isend (requestingNodeRank req') MSG_REQUEST_BECOME_CHILD (Request req')]))"

definition handleFindNode ::
  "bool \<Rightarrow> int \<Rightarrow> Job \<Rightarrow> real \<Rightarrow> JobRequest \<Rightarrow> Worker \<Rightarrow> error + (Worker \<times> Action list)" where
  "handleFindNode obsolete nextRank params now req w =
     (if obsolete then Inr (w, [])
      else if (case jobs w (req_jobId req) of None \<Rightarrow> False | Some j \<Rightarrow> state j = PAST)
        then Inr (w, [])
      else
        let maxHops = maxJobHops w (requestedNodeIndex req = 0) in
        if isIdle w \<and> \<not> hasJobCommitments w then adopt params req w
        else if numHops req > maxHops \<and> requestedNodeIndex req > 0 then Inr (w, [])
        else if numHops req > maxHops \<and> requestedNodeIndex req = 0 \<and> \<not> hasJobCommitments w then
          (case preempt now req w of
             Inl e \<Rightarrow> Inl e
           | Inr (w', out, adopts) \<Rightarrow>
               if adopts then
                 (case adopt params req w' of
                    Inl e \<Rightarrow> Inl e
                  | Inr (w'', out') \<Rightarrow> Inr (w'', out @ out'))
               else Inr (w', out @ bounceJobRequest nextRank req))
        else Inr (w, bounceJobRequest nextRank req))"

text \<open>
  \<^verbatim>\<open>Worker::handleAcceptBecomeChild\<close>. \<^verbatim>\<open>Job::reinitialize\<close> is declared in the job
  header, which is not among the sources: it is the parameter \<open>reinitialize\<close>.
\<close>

definition handleAcceptBecomeChild ::
  "(int \<Rightarrow> int \<Rightarrow> int \<Rightarrow> Job \<Rightarrow> Job) \<Rightarrow> real \<Rightarrow> int \<Rightarrow> JobSignature \<Rightarrow> Worker
     \<Rightarrow> error + (Worker \<times> Action list)" where
  "handleAcceptBecomeChild reinitialize now source sg w =
     (case jobCommitments w (sig_jobId sg) of
        None \<Rightarrow> Inl AssertionFailed
      | Some req \<Rightarrow>
          if fullTransfer req = 1 then
            Inr (w, [isend source MSG_ACK_ACCEPT_BECOME_CHILD (Request req),
                     irecv source MSG_SEND_JOB_DESCRIPTION (transferSize sg)])
          else
            (case jobs w (req_jobId req) of
               None \<Rightarrow> Inl AssertionFailed
             | Some job \<Rightarrow>
                 if state job \<noteq> PAST then
                   (case setLoad now 1 (req_jobId req) w of
                      Inl e \<Rightarrow> Inl e
                    | Inr w1 \<Rightarrow>
                        Inr ((putJob (req_jobId req)
                                (reinitialize (requestedNodeIndex req) (rootRank req)
                                   (requestingNodeRank req) job) w1)
                             \<lparr>jobCommitments := (jobCommitments w1)(sig_jobId sg := None)\<rparr>, []))
                 else Inr (w\<lparr>jobCommitments := (jobCommitments w)(sig_jobId sg := None)\<rparr>, [])))"

text \<open>
  Concrete inputs used below: a fleet of four workers; worker 1 runs index 1 of job 7 as
  a childless leaf under the root on rank 0.
\<close>

definition ex_job :: Job where
  "ex_job = \<lparr> job_id = 7, state = ACTIVE, index = 1, rootNodeRank = 0, parentNodeRank = 0,
     hasLeftChild = False, leftChildNodeRank = 2, hasRightChild = False, rightChildNodeRank = 3,
     hasJobDescription = True, lastVolume = 4, volume = 4, commitment = None,
     tree_commSize = 4, growth_period = 1, continuous_growth = False, max_demand = 0,
     time_of_activation = 1 \<rparr>"

definition ex_worker :: Worker where
  "ex_worker = \<lparr> worldRank = 1, commSize = 4, jobs = [7 \<mapsto> ex_job],
     jobCommitments = Map.empty, initializerThreads = {}, currentJob = Some 7, load = 1,
     lastLoadChange = 0 \<rparr>"

text \<open>The same worker hosting the root of job 7 with its left child attached on rank 2.\<close>

definition ex_root_job :: Job where
  "ex_root_job = ex_job\<lparr>index := 0, rootNodeRank := - 1, hasLeftChild := True\<rparr>"

definition ex_root_worker :: Worker where
  "ex_root_worker = ex_worker\<lparr>jobs := [7 \<mapsto> ex_root_job]\<rparr>"

text \<open>
  Requests for job 9, which worker 1 does not know: one for the root slot after three
  hops (the cap is 4/2 = 2), one for index 3 after nine hops (the cap is 2*4 = 8).
\<close>

definition ex_root_req :: JobRequest where
  "ex_root_req = mkJobRequest 9 3 3 0 0 3"

definition ex_leaf_req :: JobRequest where
  "ex_leaf_req = mkJobRequest 9 3 3 3 0 9"

definition ex_sig :: JobSignature where
  "ex_sig = \<lparr> sig_jobId = 9, sig_rootRank = 3, sig_revision = 0, transferSize = 100 \<rparr>"

definition ex_reinitialize :: "int \<Rightarrow> int \<Rightarrow> int \<Rightarrow> Job \<Rightarrow> Job" where
  "ex_reinitialize idx rootR parent job = updateJobTree idx rootR parent (job\<lparr>state := ACTIVE\<rparr>)"

text \<open>Worker 1 when it also knows job 9, as a job that has finished.\<close>

definition ex_past_worker :: Worker where
  "ex_past_worker = ex_worker\<lparr>jobs := [7 \<mapsto> ex_job, 9 \<mapsto> ex_job\<lparr>job_id := 9, state := PAST\<rparr>]\<rparr>"

subsection \<open>The demand curve (job.cpp)\<close>








subsection \<open>Bisection rounding (cutoff\_priority\_balancer.cpp)\<close>

text \<open>
  The fields of \<^verbatim>\<open>CutoffPriorityBalancer\<close> that the rounding reads and writes. \<open>Balancer\<close>
  holds what stays fixed during the rounding: the size of the communicator, the load
  factor, the reduced sequence of remainders (the same on every worker) and, for every
  worker of the communicator, its fractional assignments as pairs of job id and value,
  one pair per job id. \<open>Rounding\<close> holds the fields that the iterations update; every
  worker holds the same values, since they are computed from the reduction result only.
  The members are declared in the balancer's header, which is not among the sources:
  the load factor, the utilizations and the stored difference are taken as \<^verbatim>\<open>float\<close>,
  like the locals \<^verbatim>\<open>utilization\<close> and \<^verbatim>\<open>diffToOptimum\<close>, and a load factor that is not a
  \<^verbatim>\<open>float\<close> number is read as the nearest one; assignments and remainders are
  \<^verbatim>\<open>double\<close> values, which the rounding only compares, truncates and rounds to integers.
\<close>

record Balancer =
  comm_size :: int
  load_factor :: real
  remainders :: "real list"
  fleet :: "(int \<times> real) list list"

record Rounding =
  lower_remainder_idx :: int
  upper_remainder_idx :: int
  last_utilization :: real
  best_remainder_idx :: int
  best_utilization_diff :: real
  best_utilization :: real
  rounding_iterations :: int

text \<open>
  \<^verbatim>\<open>getRoundedAssignments\<close>: \<open>trunc\<close> is the cast \<^verbatim>\<open>(int) x\<close>, \<open>trial_remainder\<close> the remainder
  at the given index, 1 at and beyond the end of the sequence, and \<open>round1\<close> the rounding
  of one assignment. The second component of the result is what the call adds to
  \<^verbatim>\<open>sum\<close>. \<open>localSum\<close> is the local sum of \<^verbatim>\<open>continueRoundingUntilReduction\<close>.
\<close>

definition trunc :: "real \<Rightarrow> int" where
  "trunc x = (if x \<ge> 0 then \<lfloor>x\<rfloor> else \<lceil>x\<rceil>)"

definition trial_remainder :: "real list \<Rightarrow> int \<Rightarrow> real" where
  "trial_remainder rs remainderIdx =
     (if remainderIdx < int (length rs) then rs ! nat remainderIdx else 1)"

definition round1 :: "real \<Rightarrow> real \<Rightarrow> int" where
  "round1 remainder x =
     (let r = x - of_int (trunc x) in if r < remainder then \<lfloor>x\<rfloor> else \<lceil>x\<rceil>)"

definition getRoundedAssignments :: "real list \<Rightarrow> int \<Rightarrow> (int \<times> real) list \<Rightarrow> (int \<times> int) list \<times> int" where
  "getRoundedAssignments rs remainderIdx assignments =
     (let remainder = trial_remainder rs remainderIdx;
          roundedAssignments = map (\<lambda>(j, x). (j, round1 remainder x)) assignments
      in (roundedAssignments, sum_list (map snd roundedAssignments)))"

definition localSum :: "real list \<Rightarrow> int \<Rightarrow> (int \<times> real) list \<Rightarrow> int" where
  "localSum rs idx assignments =
     (if idx \<le> int (length rs) then snd (getRoundedAssignments rs idx assignments) else 0)"

text \<open>
  Modelled from the spec: \<^verbatim>\<open>iAllReduce\<close> and the reduction result belong to the balancer's
  base class, which is not among the sources; the all-reduce of the utilization is the sum
  of the local sums of all workers.
\<close>

definition allReduce :: "Balancer \<Rightarrow> int \<Rightarrow> int" where
  "allReduce b idx = sum_list (map (localSum (remainders b) idx) (fleet b))"

text \<open>
  \<^verbatim>\<open>continueRoundingFromReduction\<close>. \<open>trial_idx\<close> is the index \<^verbatim>\<open>(lower + upper) / 2\<close>, with
  the division of C++, which rounds towards zero. \<open>storeBest\<close> is the block that keeps
  the best result so far, \<open>bisect\<close> the update of the bounds and of the last utilization,
  \<open>utilization_of\<close> the reduction result for the trial index of a state, converted to
  \<^verbatim>\<open>float\<close>, and \<open>fromReduction\<close> the part of the function before the test for
  termination. \<open>load_target\<close> is the product of the communicator size and the load
  factor as both places of the function compute it: the size is converted to \<^verbatim>\<open>float\<close>
  and the product is rounded to \<^verbatim>\<open>float\<close>; the difference to the optimum is rounded
  to \<^verbatim>\<open>float\<close> as well.
  \<open>nextRound\<close> takes the state at one entry of the function to the state at the next,
  through \<^verbatim>\<open>continueRoundingUntilReduction\<close> and the reduction.
\<close>

definition trial_idx :: "Rounding \<Rightarrow> int" where
  "trial_idx s = (lower_remainder_idx s + upper_remainder_idx s) sdiv 2"

definition storeBest :: "real \<Rightarrow> int \<Rightarrow> real \<Rightarrow> Rounding \<Rightarrow> Rounding" where
  "storeBest diffToOptimum idx utilization s =
     (if best_remainder_idx s = - 1
         \<or> (diffToOptimum > - 1 \<and> best_utilization_diff s \<le> - 1)
         \<or> (diffToOptimum \<le> - 1 \<and> best_utilization_diff s \<le> - 1
              \<and> diffToOptimum > best_utilization_diff s)
         \<or> (diffToOptimum > - 1 \<and> \<bar>diffToOptimum\<bar> < \<bar>best_utilization_diff s\<bar>)
      then s\<lparr>best_utilization_diff := diffToOptimum, best_remainder_idx := idx,
             best_utilization := utilization\<rparr>
      else s)"

definition load_target :: "Balancer \<Rightarrow> real" where
  "load_target b = fl32 (fl32 (of_int (comm_size b)) * fl32 (load_factor b))"

definition bisect :: "Balancer \<Rightarrow> int \<Rightarrow> real \<Rightarrow> Rounding \<Rightarrow> Rounding" where
  "bisect b idx utilization s =
     (let s1 = (if lower_remainder_idx s < upper_remainder_idx s then
                  let s' = (if utilization < load_target b
                            then s\<lparr>upper_remainder_idx := idx - 1\<rparr> else s)
                  in (if utilization > load_target b
                      then s'\<lparr>lower_remainder_idx := idx + 1\<rparr> else s')
                else s)
      in s1\<lparr>last_utilization := utilization\<rparr>)"

definition utilization_of :: "Balancer \<Rightarrow> Rounding \<Rightarrow> real" where
  "utilization_of b s = fl32 (of_int (allReduce b (trial_idx s)))"

definition fromReduction :: "Balancer \<Rightarrow> Rounding \<Rightarrow> Rounding" where
  "fromReduction b s =
     (let utilization = utilization_of b s;
          diffToOptimum = fl32 (load_target b - utilization);
          idx = trial_idx s
      in storeBest diffToOptimum idx utilization
           (s\<lparr>rounding_iterations := rounding_iterations s + 1\<rparr>))"

definition nextRound :: "Balancer \<Rightarrow> Rounding \<Rightarrow> Rounding" where
  "nextRound b s = bisect b (trial_idx s) (utilization_of b s) (fromReduction b s)"

text \<open>
  The rounding ends: every iteration that does not end it either narrows the interval of
  the bounds or leaves the trial index, and with it the utilization, unchanged, so that
  the next iteration ends it.
\<close>

definition rounding_measure :: "Balancer \<Rightarrow> Rounding \<Rightarrow> nat" where
  "rounding_measure b s =
     2 * nat (upper_remainder_idx s - lower_remainder_idx s + 1)
     + (if utilization_of b s = last_utilization s then 0 else 1)"

lemma sdiv2_nonneg: "0 \<le> k \<Longrightarrow> k sdiv 2 = k div (2::int)"
  by (simp add: signed_divide_int_def sgn_if)

lemma sdiv2_neg: "k < 0 \<Longrightarrow> k sdiv 2 = - ((- k) div (2::int))"
  by (simp add: signed_divide_int_def sgn_if)

lemma sdiv2_bounds:
  fixes l u :: int assumes "l < u"
  shows "l \<le> (l + u) sdiv 2" "(l + u) sdiv 2 \<le> u"
proof -
  consider "0 \<le> l + u" | "l + u < 0" by linarith
  then have "l \<le> (l + u) sdiv 2 \<and> (l + u) sdiv 2 \<le> u"
  proof cases
    case 1
    then have "(l + u) sdiv 2 = (l + u) div 2" by (rule sdiv2_nonneg)
    with 1 assms show ?thesis by linarith
  next
    case 2
    then have "(l + u) sdiv 2 = - ((- (l + u)) div 2)" by (rule sdiv2_neg)
    with 2 assms show ?thesis by linarith
  qed
  then show "l \<le> (l + u) sdiv 2" "(l + u) sdiv 2 \<le> u" by simp_all
qed

lemma sdiv2_mid:
  fixes l u :: int assumes "0 \<le> l" "l < u"
  shows "(l + u) sdiv 2 < u"
    and "(l + u) sdiv 2 < ((l + u) sdiv 2 + 1 + u) sdiv 2"
    and "(l + ((l + u) sdiv 2 - 1)) sdiv 2 \<le> (l + u) sdiv 2"
proof -
  have m: "(l + u) sdiv 2 = (l + u) div 2" using assms by (simp add: sdiv2_nonneg)
  show "(l + u) sdiv 2 < u" unfolding m using assms by linarith
  have "0 \<le> (l + u) div 2 + 1 + u" using assms by linarith
  then have "((l + u) div 2 + 1 + u) sdiv 2 = ((l + u) div 2 + 1 + u) div 2"
    by (rule sdiv2_nonneg)
  then show "(l + u) sdiv 2 < ((l + u) sdiv 2 + 1 + u) sdiv 2"
    unfolding m using assms by linarith
  consider "0 \<le> l + ((l + u) div 2 - 1)" | "l + ((l + u) div 2 - 1) < 0" by linarith
  then show "(l + ((l + u) sdiv 2 - 1)) sdiv 2 \<le> (l + u) sdiv 2"
  proof cases
    case 1
    then have "(l + ((l + u) div 2 - 1)) sdiv 2 = (l + ((l + u) div 2 - 1)) div 2"
      by (rule sdiv2_nonneg)
    then show ?thesis unfolding m using assms by linarith
  next
    case 2
    with assms have "l + ((l + u) div 2 - 1) = - 1" by linarith
    then have "(l + ((l + u) div 2 - 1)) sdiv 2 = 0" by (simp add: signed_divide_int_def)
    then show ?thesis unfolding m using assms by linarith
  qed
qed


lemma fromReduction_bounds [simp]:
  "lower_remainder_idx (fromReduction b s) = lower_remainder_idx s"
  "upper_remainder_idx (fromReduction b s) = upper_remainder_idx s"
  "last_utilization (fromReduction b s) = last_utilization s"
  by (simp_all add: fromReduction_def storeBest_def Let_def)

lemma nextRound_decreases:
  assumes "utilization_of b s \<noteq> last_utilization s"
  shows "rounding_measure b (nextRound b s) < rounding_measure b s"
proof -
  let ?idx = "trial_idx s" and ?u = "utilization_of b s"
  let ?NL = "load_target b"
  let ?l = "lower_remainder_idx s" and ?h = "upper_remainder_idx s"
  have lastn: "last_utilization (nextRound b s) = ?u"
    by (simp add: nextRound_def bisect_def Let_def)
  show ?thesis
  proof (cases "?l < ?h \<and> ?u \<noteq> ?NL")
    case False
    then have same: "lower_remainder_idx (nextRound b s) = ?l" "upper_remainder_idx (nextRound b s) = ?h"
      by (auto simp: nextRound_def bisect_def Let_def)
    then have "trial_idx (nextRound b s) = ?idx" by (simp add: trial_idx_def)
    then have "utilization_of b (nextRound b s) = ?u" by (simp add: utilization_of_def)
    with lastn same assms show ?thesis by (simp add: rounding_measure_def)
  next
    case True
    then have lh: "?l < ?h" by simp
    note bd = sdiv2_bounds [OF lh]
    from True consider "?u < ?NL" | "?u > ?NL" by linarith
    then have "nat (upper_remainder_idx (nextRound b s) - lower_remainder_idx (nextRound b s) + 1)
        < nat (?h - ?l + 1)"
    proof cases
      case 1
      then have "lower_remainder_idx (nextRound b s) = ?l"
        "upper_remainder_idx (nextRound b s) = ?idx - 1"
        using lh by (auto simp: nextRound_def bisect_def Let_def)
      with bd lh show ?thesis by (simp add: trial_idx_def)
    next
      case 2
      then have "lower_remainder_idx (nextRound b s) = ?idx + 1"
        "upper_remainder_idx (nextRound b s) = ?h"
        using lh by (auto simp: nextRound_def bisect_def Let_def)
      with bd lh show ?thesis by (simp add: trial_idx_def)
    qed
    moreover have "rounding_measure b (nextRound b s)
        \<le> 2 * nat (upper_remainder_idx (nextRound b s) - lower_remainder_idx (nextRound b s) + 1) + 1"
      by (simp add: rounding_measure_def)
    moreover have "rounding_measure b s = 2 * nat (?h - ?l + 1) + 1"
      using assms by (simp add: rounding_measure_def)
    ultimately show ?thesis by linarith
  qed
qed

text \<open>
  \<open>continueRounding\<close> runs the iterations from the state at the first entry of
  \<^verbatim>\<open>continueRoundingFromReduction\<close> up to the test for termination that succeeds, and
  \<open>visited\<close> lists the states at the entries of the function during that run.
\<close>

function continueRounding :: "Balancer \<Rightarrow> Rounding \<Rightarrow> Rounding" where
  "continueRounding b s =
     (if utilization_of b s = last_utilization s then fromReduction b s
      else continueRounding b (nextRound b s))"
  by pat_completeness auto
termination
  by (relation "measure (\<lambda>(b, s). rounding_measure b s)") (auto simp: nextRound_decreases)

function visited :: "Balancer \<Rightarrow> Rounding \<Rightarrow> Rounding list" where
  "visited b s =
     (if utilization_of b s = last_utilization s then [s]
      else s # visited b (nextRound b s))"
  by pat_completeness auto
termination
  by (relation "measure (\<lambda>(b, s). rounding_measure b s)") (auto simp: nextRound_decreases)

declare continueRounding.simps [simp del] visited.simps [simp del]


text \<open>
  \<open>startRounding\<close> is the state in which the rounding begins: the remainders have been
  reduced, the last utilization is 0 and no best index is stored, and
  \<^verbatim>\<open>finishRemaindersReduction\<close> sets the bounds to 0 and the number of remainders.
  \<open>applyBest\<close> is the block ``Remainders are known to this node: apply and report''
  on every worker, and \<open>bisectionRounding\<close> the whole rounding, which returns the
  assignments of all workers and the state after the reset.
\<close>

definition startRounding :: "Balancer \<Rightarrow> Rounding \<Rightarrow> Rounding" where
  "startRounding b s =
     s\<lparr>last_utilization := 0, best_remainder_idx := - 1,
       lower_remainder_idx := 0, upper_remainder_idx := int (length (remainders b))\<rparr>"

definition applyBest :: "Balancer \<Rightarrow> Rounding \<Rightarrow> (int \<times> real) list list" where
  "applyBest b s =
     (if remainders b \<noteq> [] \<and> best_remainder_idx s \<le> int (length (remainders b)) then
        map (\<lambda>assignments.
               map (\<lambda>(j, v). (j, of_int v))
                 (fst (getRoundedAssignments (remainders b) (best_remainder_idx s) assignments)))
            (fleet b)
      else fleet b)"

definition bisectionRounding :: "Balancer \<Rightarrow> Rounding \<Rightarrow> (int \<times> real) list list \<times> Rounding" where
  "bisectionRounding b s0 =
     (let s = continueRounding b (startRounding b s0)
      in (applyBest b s, s\<lparr>best_remainder_idx := - 1, rounding_iterations := 0\<rparr>))"

text \<open>
  \<open>prefers d best\<close> is the condition under which \<open>storeBest\<close> replaces a stored result
  with difference \<open>best\<close> by one with difference \<open>d\<close>. \<open>best_among\<close> says that the
  stored result is that of one of the given iterations and that none of them would
  replace it; \<open>best_so_far\<close> is the invariant of the loop.
\<close>

definition prefers :: "real \<Rightarrow> real \<Rightarrow> bool" where
  "prefers d best =
     ((d > - 1 \<and> best \<le> - 1) \<or> (d \<le> - 1 \<and> best \<le> - 1 \<and> d > best)
      \<or> (d > - 1 \<and> \<bar>d\<bar> < \<bar>best\<bar>))"

definition diff_of :: "Balancer \<Rightarrow> Rounding \<Rightarrow> real" where
  "diff_of b s = fl32 (load_target b - utilization_of b s)"

definition bounds_ok :: "Balancer \<Rightarrow> Rounding \<Rightarrow> bool" where
  "bounds_ok b s =
     (0 \<le> lower_remainder_idx s \<and> lower_remainder_idx s \<le> upper_remainder_idx s + 1
      \<and> upper_remainder_idx s \<le> int (length (remainders b)))"

definition best_among :: "Rounding list \<Rightarrow> Balancer \<Rightarrow> Rounding \<Rightarrow> bool" where
  "best_among vs b r =
     ((\<exists>v \<in> set vs. best_remainder_idx r = trial_idx v \<and> best_utilization_diff r = diff_of b v
          \<and> best_utilization r = utilization_of b v)
      \<and> (\<forall>v \<in> set vs. \<not> prefers (diff_of b v) (best_utilization_diff r)))"

definition best_so_far :: "Rounding list \<Rightarrow> Balancer \<Rightarrow> Rounding \<Rightarrow> bool" where
  "best_so_far vs b r = (if vs = [] then best_remainder_idx r = - 1
                  else 0 \<le> best_remainder_idx r \<and> best_among vs b r)"

text \<open>
  Two examples: four workers at load factor 1, two of which hold assignments, and the
  remainders 1/4, 1/2, 3/4; and thirty workers at load factor 0.1f, the \<^verbatim>\<open>float\<close>
  nearest to one tenth, with two assignments of 3/2 on one worker and the remainder 1/2.
\<close>

definition ex_balancer :: Balancer where
  "ex_balancer = \<lparr> comm_size = 4, load_factor = 1, remainders = [1 / 4, 1 / 2, 3 / 4],
     fleet = [[(1, 3 / 2), (2, 5 / 4)], [(3, 7 / 4)]] \<rparr>"

definition ex_float_balancer :: Balancer where
  "ex_float_balancer = \<lparr> comm_size = 30, load_factor = 13421773 / 134217728,
     remainders = [1 / 2], fleet = [[(1, 3 / 2), (2, 3 / 2)]] \<rparr>"

definition ex_rounding :: Rounding where
  "ex_rounding = \<lparr> lower_remainder_idx = 0, upper_remainder_idx = 0, last_utilization = 0,
     best_remainder_idx = - 1, best_utilization_diff = 0, best_utilization = 0,
     rounding_iterations = 0 \<rparr>"

subsection \<open>Merging clause buffers (sat\_clause\_communicator.cpp)\<close>





























section \<open>Theorems\<close>

subsection \<open>Event maps: merge\<close>

lemma map_of_map_put: "map_of (map_put k v m) = (map_of m)(k \<mapsto> v)"
  by (induction m) (auto simp: fun_upd_twist)

lemma keys_map_put: "fst ` set (map_put k v m) = insert k (fst ` set m)"
proof (induction m)
  case Nil
  then show ?case by simp
next
  case (Cons a m)
  obtain k' v' where a: "a = (k', v')" by (cases a)
  from Cons show ?case unfolding a by (simp add: insert_commute)
qed

lemma sorted_map_put:
  "sorted_wrt (<) (map fst m) \<Longrightarrow> sorted_wrt (<) (map fst (map_put k v m))"
proof (induction m)
  case Nil
  then show ?case by simp
next
  case (Cons a m)
  obtain k' v' where a: "a = (k', v')" by (cases a)
  have "\<forall>x \<in> fst ` set (map_put k v m). k' < x" if "k' < k"
    using Cons.prems that unfolding keys_map_put a by auto
  with Cons show ?case by (auto simp: a)
qed

lemma map_of_None_if_less:
  "sorted_wrt (<) (map fst (m :: EventMap)) \<Longrightarrow> \<forall>x \<in> fst ` set m. k \<le> x \<longrightarrow> k < x \<Longrightarrow> map_of m k = None"
  by (induction m) auto

lemma map_of_merge_loop:
  "sorted_wrt (<) (map fst a) \<Longrightarrow> sorted_wrt (<) (map fst b) \<Longrightarrow>
   map_of (merge_loop a b acc) k =
     (case combine (map_of a k) (map_of b k) of None \<Rightarrow> map_of acc k | Some e \<Rightarrow> Some e)"
proof (induction a b acc rule: merge_loop.induct)
  case (1 k1 e it k' e' otherIt newMap)
  have n1: "map_of it x = None" if "x \<le> k1" for x
    using 1(4) that by (intro map_of_None_if_less) auto
  have n2: "map_of otherIt x = None" if "x \<le> k'" for x
    using 1(5) that by (intro map_of_None_if_less) auto
  show ?case
  proof (cases "k1 = k'")
    case True
    with 1 n1 n2 show ?thesis
      by (auto simp: map_of_map_put combine_def split: option.splits)
  next
    case False
    show ?thesis
    proof (cases "k1 < k'")
      case True
      with 1 False n1 n2 show ?thesis
        by (auto simp: map_of_map_put combine_def split: option.splits)
    next
      case f2: False
      with 1 False n1 n2 show ?thesis
        by (auto simp: map_of_map_put combine_def split: option.splits)
    qed
  qed
next
  case (2 k1 e it newMap)
  have n1: "map_of it x = None" if "x \<le> k1" for x
    using 2(2) that by (intro map_of_None_if_less) auto
  with 2 show ?case by (auto simp: map_of_map_put combine_def split: option.splits)
next
  case (3 k' e' otherIt newMap)
  have n2: "map_of otherIt x = None" if "x \<le> k'" for x
    using 3(3) that by (intro map_of_None_if_less) auto
  with 3 show ?case by (auto simp: map_of_map_put combine_def split: option.splits)
next
  case (4 newMap)
  then show ?case by (simp add: combine_def)
qed

lemma sorted_merge_loop:
  "sorted_wrt (<) (map fst acc) \<Longrightarrow> sorted_wrt (<) (map fst (merge_loop a b acc))"
  by (induction a b acc rule: merge_loop.induct) (auto simp: sorted_map_put)

lemma sorted_map_of_inject:
  "sorted_wrt (<) (map fst (a :: EventMap)) \<Longrightarrow> sorted_wrt (<) (map fst b) \<Longrightarrow>
   map_of a = map_of b \<Longrightarrow> a = b"
proof (induction a arbitrary: b)
  case Nil
  then show ?case by (metis map_of.simps(1) map_of_eq_empty_iff)
next
  case (Cons x a)
  obtain k v where x: "x = (k, v)" by (cases x)
  show ?case
  proof (cases b)
    case Nil
    with Cons.prems x show ?thesis by (metis map_of.simps(1) map_of_eq_empty_iff list.distinct(1))
  next
    case (Cons y b')
    obtain k' v' where y: "y = (k', v')" by (cases y)
    have na: "map_of a z = None" if "z \<le> k" for z
      using Cons.prems(1) that unfolding x by (intro map_of_None_if_less) auto
    have nb: "map_of b' z = None" if "z \<le> k'" for z
      using Cons.prems(2) that unfolding Cons y by (intro map_of_None_if_less) auto
    have eq: "map_of ((k, v) # a) z = map_of ((k', v') # b') z" for z
      using Cons.prems(3) unfolding x Cons y by (rule fun_cong)
    have kk: "k = k'"
    proof (rule ccontr)
      assume "k \<noteq> k'"
      then consider "k < k'" | "k' < k" by linarith
      then show False
      proof cases
        case 1
        with eq [of k] nb [of k] show False by (auto split: if_splits)
      next
        case 2
        with eq [of k'] na [of k'] show False by (auto split: if_splits)
      qed
    qed
    with eq [of k] have vv: "v = v'" by simp
    have "map_of a z = map_of b' z" for z
      using eq [of z] na [of z] nb [of z] kk by (cases "z = k") (auto split: if_splits)
    then have "map_of a = map_of b'" by blast
    with Cons.IH [of b'] Cons.prems have "a = b'" unfolding x Cons y by simp
    with kk vv show ?thesis unfolding x Cons y by simp
  qed
qed

lemma EventMap_inv_key:
  "EventMap_inv m \<Longrightarrow> map_of m k = Some e \<Longrightarrow> sint (jobId e) = k"
  by (auto simp: EventMap_inv_def list_all_iff dest!: map_of_SomeD)

lemma agree_tie:
  assumes "EventMap_inv a" "EventMap_inv b" "agree a b"
    and "map_of a k = Some e" "map_of b k = Some e'" "epoch e = epoch e'"
  shows "e = e'"
proof -
  have "(k, e) \<in> set a" "(k, e') \<in> set b"
    using assms(4,5) by (auto dest: map_of_SomeD)
  with assms(3,6) have "demand e = demand e'" "priority e = priority e'"
    by (auto simp: agree_def list_all_iff)
  moreover have "sint (jobId e) = sint (jobId e')"
    using EventMap_inv_key [OF assms(1,4)] EventMap_inv_key [OF assms(2,5)] by simp
  then have "jobId e = jobId e'" by (rule signed_word_eqI)
  ultimately show ?thesis using assms(6) by simp
qed

lemma combine_commute: "tie_eq x y \<Longrightarrow> combine x y = combine y x"
  by (cases x; cases y) (auto simp: combine_def tie_eq_def dominates_def intro: signed_word_eqI)

lemma combine_assoc:
  "tie_eq x y \<Longrightarrow> tie_eq y z \<Longrightarrow> tie_eq x z \<Longrightarrow>
   combine (combine x y) z = combine x (combine y z)"
  by (cases x; cases y; cases z) (auto simp: combine_def tie_eq_def dominates_def intro: signed_word_eqI)

lemma map_of_EventMap_merge:
  "EventMap_inv a \<Longrightarrow> EventMap_inv b \<Longrightarrow>
   map_of (EventMap_merge a b) k = combine (map_of a k) (map_of b k)"
  by (simp add: EventMap_merge_def EventMap_inv_def map_of_merge_loop combine_def
      split: option.splits)

lemma sorted_EventMap_merge: "sorted_wrt (<) (map fst (EventMap_merge a b))"
  by (simp add: EventMap_merge_def sorted_merge_loop)

lemma EventMap_inv_merge:
  assumes "EventMap_inv a" "EventMap_inv b"
  shows "EventMap_inv (EventMap_merge a b)"
proof -
  have "k = sint (jobId e)" if "(k, e) \<in> set (EventMap_merge a b)" for k e
  proof -
    have "distinct (map fst (EventMap_merge a b))"
      using sorted_EventMap_merge [of a b] by (simp add: strict_sorted_iff)
    with that have "map_of (EventMap_merge a b) k = Some e" by simp
    then have "combine (map_of a k) (map_of b k) = Some e"
      by (simp add: map_of_EventMap_merge assms)
    then show ?thesis
      using EventMap_inv_key [OF assms(1)] EventMap_inv_key [OF assms(2)]
      by (auto simp: combine_def split: option.splits if_splits)
  qed
  then show ?thesis
    unfolding EventMap_inv_def using sorted_EventMap_merge [of a b]
    by (auto simp: list_all_iff)
qed

text \<open>
  Claim C6. On event maps that satisfy the class invariant, and under the precondition
  that entries of one key with equal epochs agree on demand and priority, the merge is
  commutative and associative, and for a key present in both operands the entry with the
  strictly larger epoch is the one the merged map holds.
\<close>

theorem EventMap_merge_laws:
  assumes "EventMap_inv A" "EventMap_inv B" "EventMap_inv C"
    and "agree A B" "agree B C" "agree A C"
  shows "EventMap_merge A B = EventMap_merge B A
    \<and> EventMap_merge (EventMap_merge A B) C = EventMap_merge A (EventMap_merge B C)
    \<and> (\<forall>k a b. map_of A k = Some a \<longrightarrow> map_of B k = Some b \<longrightarrow>
          (sint (epoch b) < sint (epoch a) \<longrightarrow> map_of (EventMap_merge A B) k = Some a)
        \<and> (sint (epoch a) < sint (epoch b) \<longrightarrow> map_of (EventMap_merge A B) k = Some b))"
proof -
  have tAB: "tie_eq (map_of A k) (map_of B k)" for k
    unfolding tie_eq_def using agree_tie [OF assms(1,2,4)] by blast
  have tBC: "tie_eq (map_of B k) (map_of C k)" for k
    unfolding tie_eq_def using agree_tie [OF assms(2,3,5)] by blast
  have tAC: "tie_eq (map_of A k) (map_of C k)" for k
    unfolding tie_eq_def using agree_tie [OF assms(1,3,6)] by blast
  have comm: "EventMap_merge A B = EventMap_merge B A"
  proof (rule sorted_map_of_inject)
    show "map_of (EventMap_merge A B) = map_of (EventMap_merge B A)"
      using combine_commute [OF tAB] by (auto simp: map_of_EventMap_merge assms)
  qed (rule sorted_EventMap_merge)+
  have assoc: "EventMap_merge (EventMap_merge A B) C = EventMap_merge A (EventMap_merge B C)"
  proof (rule sorted_map_of_inject)
    show "map_of (EventMap_merge (EventMap_merge A B) C)
        = map_of (EventMap_merge A (EventMap_merge B C))"
      using combine_assoc [OF tAB tBC tAC]
      by (auto simp: map_of_EventMap_merge assms EventMap_inv_merge)
  qed (rule sorted_EventMap_merge)+
  have wins: "\<forall>k a b. map_of A k = Some a \<longrightarrow> map_of B k = Some b \<longrightarrow>
          (sint (epoch b) < sint (epoch a) \<longrightarrow> map_of (EventMap_merge A B) k = Some a)
        \<and> (sint (epoch a) < sint (epoch b) \<longrightarrow> map_of (EventMap_merge A B) k = Some b)"
    by (auto simp: map_of_EventMap_merge assms combine_def dominates_def)
  from comm assoc wins show ?thesis by blast
qed

theorem EventMap_merge_laws_witness:
  "EventMap_inv ex_A \<and> EventMap_inv ex_B \<and> EventMap_inv ex_C
   \<and> agree ex_A ex_B \<and> agree ex_B ex_C \<and> agree ex_A ex_C
   \<and> EventMap_merge ex_A ex_B = EventMap_merge ex_B ex_A
   \<and> EventMap_merge (EventMap_merge ex_A ex_B) ex_C = EventMap_merge ex_A (EventMap_merge ex_B ex_C)
   \<and> map_of ex_A 1 = Some (ev 1 2 3 4) \<and> map_of ex_B 1 = Some (ev 1 3 9 9)
   \<and> sint (epoch (ev 1 2 3 4)) < sint (epoch (ev 1 3 9 9))
   \<and> map_of (EventMap_merge ex_A ex_B) 1 = Some (ev 1 3 9 9)"
proof -
  have i: "EventMap_inv ex_A" "EventMap_inv ex_B" "EventMap_inv ex_C"
    by (simp_all add: EventMap_inv_def ex_A_def ex_B_def ex_C_def ev_def)
  have a: "agree ex_A ex_B" "agree ex_B ex_C" "agree ex_A ex_C"
    by (simp_all add: agree_def ex_A_def ex_B_def ex_C_def ev_def)
  have l: "map_of ex_A 1 = Some (ev 1 2 3 4)" "map_of ex_B 1 = Some (ev 1 3 9 9)"
    "sint (epoch (ev 1 2 3 4)) < sint (epoch (ev 1 3 9 9))"
    by (simp_all add: ex_A_def ex_B_def ev_def)
  from EventMap_merge_laws [OF i a] i a l show ?thesis by blast
qed

subsection \<open>Event maps: serialisation\<close>

lemma bytes_int_int_bytes: "bytes_int (int_bytes w) = w" (is "?l = w")
proof (rule bit_word_eqI)
  fix n assume n: "n < LENGTH(32)"
  then consider "n < 8" | "8 \<le> n" "n < 16" | "16 \<le> n" "n < 24" | "24 \<le> n" "n < 32"
    by fastforce
  then show "bit ?l n = bit w n"
    unfolding bytes_int_def int_bytes_def
    by cases (auto simp: bit_simps)
qed

lemma length_int_bytes: "length (int_bytes w) = 4"
  by (simp add: int_bytes_def)

lemma length_enc1: "length (enc1 e) = 16"
  by (simp add: enc1_def length_int_bytes)

lemma length_enc: "length (enc m) = 16 * length m"
  by (induction m) (auto simp: length_enc1)

lemma memcpy_append:
  "length pre = i \<Longrightarrow> length src \<le> length rest \<Longrightarrow>
   memcpy (pre @ rest) i src = pre @ src @ drop (length src) rest"
  by (simp add: memcpy_def)

lemma memcpy4:
  assumes "i + 16 \<le> length result"
  shows "memcpy (memcpy (memcpy (memcpy result i (int_bytes a)) (i + 4) (int_bytes b))
           (i + 8) (int_bytes c)) (i + 12) (int_bytes d)
         = take i result @ (int_bytes a @ int_bytes b @ int_bytes c @ int_bytes d)
           @ drop (i + 16) result"
proof -
  define pre where "pre = take i result"
  define rest where "rest = drop i result"
  have r: "result = pre @ rest" and lp: "length pre = i" and lr: "16 \<le> length rest"
    using assms by (auto simp: pre_def rest_def)
  have 1: "memcpy result i (int_bytes a) = pre @ int_bytes a @ drop 4 rest"
    unfolding r using lp lr by (simp add: memcpy_append length_int_bytes)
  have 2: "memcpy (pre @ int_bytes a @ drop 4 rest) (i + 4) (int_bytes b)
         = pre @ int_bytes a @ int_bytes b @ drop 8 rest"
    using memcpy_append [of "pre @ int_bytes a" "i + 4" "int_bytes b" "drop 4 rest"] lp lr
    by (simp add: length_int_bytes)
  have 3: "memcpy (pre @ int_bytes a @ int_bytes b @ drop 8 rest) (i + 8) (int_bytes c)
         = pre @ int_bytes a @ int_bytes b @ int_bytes c @ drop 12 rest"
    using memcpy_append [of "pre @ int_bytes a @ int_bytes b" "i + 8" "int_bytes c" "drop 8 rest"]
      lp lr by (simp add: length_int_bytes)
  have 4: "memcpy (pre @ int_bytes a @ int_bytes b @ int_bytes c @ drop 12 rest) (i + 12)
             (int_bytes d)
         = pre @ int_bytes a @ int_bytes b @ int_bytes c @ int_bytes d @ drop 16 rest"
    using memcpy_append [of "pre @ int_bytes a @ int_bytes b @ int_bytes c" "i + 12"
        "int_bytes d" "drop 12 rest"] lp lr by (simp add: length_int_bytes)
  have "drop 16 rest = drop (i + 16) result"
    by (simp add: rest_def add.commute)
  with 1 2 3 4 show ?thesis by (simp add: pre_def)
qed

lemma serialize_loop_eq:
  "i + 16 * length m \<le> length result \<Longrightarrow>
   serialize_loop m i result
     = take i result @ enc m @ drop (i + 16 * length m) result"
proof (induction m arbitrary: i result)
  case Nil
  then show ?case by simp
next
  case (Cons x m)
  obtain k e where x: "x = (k, e)" by (cases x)
  let ?r = "take i result @ enc1 e @ drop (i + 16) result"
  have le: "i + 16 \<le> length result" using Cons.prems by simp
  have step: "serialize_loop (x # m) i result = serialize_loop m (i + 16) ?r"
    unfolding x by (simp add: memcpy4 [OF le] enc1_def Let_def)
  have len: "length ?r = length result" using le by (simp add: length_enc1)
  have "i + 16 + 16 * length m \<le> length ?r" using Cons.prems len by simp
  from Cons.IH [OF this] have
    "serialize_loop m (i + 16) ?r
       = take (i + 16) ?r @ enc m @ drop (i + 16 + 16 * length m) ?r" .
  moreover have "take (i + 16) ?r = take i result @ enc1 e"
    using le by (simp add: length_enc1)
  moreover have "drop (i + 16 + 16 * length m) ?r = drop (i + 16 * length (x # m)) result"
  proof -
    have "i + 16 + 16 * length m = length (take i result @ enc1 e) + (16 * length m)"
      using le by (simp add: length_enc1)
    then have "drop (i + 16 + 16 * length m) ?r = drop (16 * length m) (drop (i + 16) result)"
      by (simp only: drop_append append_assoc [symmetric] length_append) simp
    also have "\<dots> = drop (i + 16 * length (x # m)) result"
      by (simp add: ac_simps)
    finally show ?thesis .
  qed
  ultimately have "serialize_loop m (i + 16) ?r
      = (take i result @ enc1 e) @ enc m @ drop (i + 16 * length (x # m)) result"
    by (simp only:)
  with step show ?case by (simp add: x)
qed

lemma serialize_eq: "serialize m = enc m"
  using serialize_loop_eq [of 0 m "replicate (length m * size_per_event) 0"]
  by (simp add: serialize_def size_per_event_def mult.commute)

lemma decode_enc1:
  assumes "length pre = i"
  shows "\<lparr> jobId = bytes_int (take 4 (drop i (pre @ enc1 e @ post))),
           epoch = bytes_int (take 4 (drop (i + 4) (pre @ enc1 e @ post))),
           demand = bytes_int (take 4 (drop (i + 8) (pre @ enc1 e @ post))),
           priority = bytes_int (take 4 (drop (i + 12) (pre @ enc1 e @ post))) \<rparr> = e"
proof -
  have "take 4 (drop i (pre @ enc1 e @ post)) = int_bytes (jobId e)"
    using assms by (simp add: enc1_def length_int_bytes)
  moreover have "take 4 (drop (i + 4) (pre @ enc1 e @ post)) = int_bytes (epoch e)"
    using assms by (simp add: enc1_def length_int_bytes)
  moreover have "take 4 (drop (i + 8) (pre @ enc1 e @ post)) = int_bytes (demand e)"
    using assms by (simp add: enc1_def length_int_bytes)
  moreover have "take 4 (drop (i + 12) (pre @ enc1 e @ post)) = int_bytes (priority e)"
    using assms by (simp add: enc1_def length_int_bytes)
  ultimately show ?thesis by (simp add: bytes_int_int_bytes)
qed

lemma deserialize_loop_step:
  assumes "length pre = i"
  shows "deserialize_loop (pre @ enc1 e @ post) i (Suc n) acc
       = deserialize_loop (pre @ enc1 e @ post) (i + 16) n (map_put (sint (jobId e)) e acc)"
  by (simp only: deserialize_loop.simps Let_def decode_enc1 [OF assms])

lemma deserialize_loop_enc:
  "length pre = i \<Longrightarrow>
   deserialize_loop (pre @ enc m) i (length m) acc
     = fold (\<lambda>(k, e). map_put (sint (jobId e)) e) m acc"
proof (induction m arbitrary: pre i acc)
  case Nil
  then show ?case by simp
next
  case (Cons x m)
  obtain k e where x: "x = (k, e)" by (cases x)
  have "length (pre @ enc1 e) = i + 16" using Cons.prems by (simp add: length_enc1)
  from Cons.IH [OF this, of "map_put (sint (jobId e)) e acc"]
  have "deserialize_loop (pre @ enc1 e @ enc m) (i + 16) (length m)
          (map_put (sint (jobId e)) e acc)
        = fold (\<lambda>(k, e). map_put (sint (jobId e)) e) m (map_put (sint (jobId e)) e acc)"
    by simp
  with deserialize_loop_step [OF Cons.prems, of e "enc m" "length m" acc]
  have "deserialize_loop (pre @ enc1 e @ enc m) i (Suc (length m)) acc
        = fold (\<lambda>(k, e). map_put (sint (jobId e)) e) m (map_put (sint (jobId e)) e acc)"
    by (simp only:)
  then show ?case by (simp add: x del: deserialize_loop.simps)
qed

lemma map_put_append:
  "\<forall>x \<in> fst ` set acc. x < k \<Longrightarrow> map_put k v acc = acc @ [(k, v)]"
  by (induction acc) auto

lemma fold_put_sorted:
  "sorted_wrt (<) (map fst (acc @ m)) \<Longrightarrow> list_all (\<lambda>(k, e). k = sint (jobId e)) m \<Longrightarrow>
   fold (\<lambda>(k, e). map_put (sint (jobId e)) e) m acc = acc @ m"
proof (induction m arbitrary: acc)
  case Nil
  then show ?case by simp
next
  case (Cons x m)
  obtain k e where x: "x = (k, e)" by (cases x)
  have k: "k = sint (jobId e)" using Cons.prems(2) by (simp add: x)
  have "\<forall>y \<in> fst ` set acc. y < k"
    using Cons.prems(1) by (auto simp: x sorted_wrt_append)
  then have put: "map_put k e acc = acc @ [(k, e)]" by (rule map_put_append)
  have "sorted_wrt (<) (map fst ((acc @ [(k, e)]) @ m))" using Cons.prems(1) by (simp add: x)
  from Cons.IH [OF this] Cons.prems(2) put k show ?case by (simp add: x)
qed

text \<open>
  Claim C10. Deserialising the bytes that \<^verbatim>\<open>serialize\<close> produces for an event map gives
  the event map back, for every event map that satisfies the class invariant; the empty
  map goes to the empty payload and back to the empty map; and every payload of at most
  \<^verbatim>\<open>sizeof(int)\<close> = 4 bytes deserialises to the empty map.
\<close>

theorem EventMap_roundtrip:
  "(EventMap_inv m \<longrightarrow> deserialize (serialize m) = Inr m)
   \<and> deserialize (serialize []) = Inr []
   \<and> (length packed \<le> 4 \<longrightarrow> deserialize packed = Inr [])"
proof -
  have "deserialize (serialize m) = Inr m" if inv: "EventMap_inv m"
  proof (cases m)
    case Nil
    then show ?thesis by (simp add: serialize_def deserialize_def)
  next
    case (Cons x xs)
    have len: "length (serialize m) = 16 * length m"
      by (simp add: serialize_eq length_enc)
    have "deserialize_loop (serialize m) 0 (length m) [] = m"
      using deserialize_loop_enc [of "[]" 0 m "[]"] fold_put_sorted [of "[]" m] inv
      by (simp add: serialize_eq EventMap_inv_def)
    with len Cons show ?thesis
      by (simp add: deserialize_def size_per_event_def)
  qed
  moreover have "deserialize (serialize []) = Inr []"
    by (simp add: serialize_def deserialize_def)
  moreover have "length packed \<le> 4 \<Longrightarrow> deserialize packed = Inr []"
    by (simp add: deserialize_def)
  ultimately show ?thesis by blast
qed

theorem EventMap_roundtrip_witness:
  "EventMap_inv ex_A \<and> deserialize (serialize ex_A) = Inr ex_A
   \<and> length [1, 2, 3 :: 8 word] \<le> 4 \<and> deserialize [1, 2, 3] = Inr []"
proof -
  have i: "EventMap_inv ex_A"
    by (simp add: EventMap_inv_def ex_A_def ev_def)
  have l: "length [1, 2, 3 :: 8 word] \<le> 4" by simp
  from EventMap_roundtrip [of ex_A "[1, 2, 3]"] i l show ?thesis by blast
qed

subsection \<open>The worker: volume application and placement\<close>

text \<open>Unfolding sets for evaluating the handlers on the concrete inputs.\<close>

lemmas ex_defs = ex_job_def ex_worker_def ex_root_job_def ex_root_worker_def ex_root_req_def
  ex_leaf_req_def ex_sig_def ex_reinitialize_def mkJobRequest_def

lemmas vol_defs = updateVolume_def updateLeft_def updateRight_def setLastVolume_def
  isNotInState_def getLeftChildIndex_def getRightChildIndex_def unsetLeftChild_def
  unsetRightChild_def putJob_def suspend_def setLoad_def hasJob_def Let_def

lemmas find_defs = handleFindNode_def preempt_def adopt_def bounceJobRequest_def commit_def
  updateJobTree_def newJob_def maxJobHops_def isIdle_def hasJobCommitments_def isInState_def
  isNotInState_def isRoot_def putJob_def suspend_def setLoad_def hasJob_def Let_def
  signed_divide_int_def

lemma suspend_Inr: "suspend job = Inr job' \<longleftrightarrow> state job = ACTIVE \<and> job' = job\<lparr>state := SUSPENDED, volume := 0\<rparr>"
  by (auto simp: suspend_def)

lemma setLoad0_Inr:
  "setLoad now 0 j w = Inr w' \<longleftrightarrow>
     load w = 1 \<and> hasJob w j \<and> currentJob w \<noteq> None
     \<and> w' = w\<lparr>load := 0, lastLoadChange := now, currentJob := None\<rparr>"
  by (auto simp: setLoad_def Let_def hasJob_def)

text \<open>
  Claim C7, as the code has it. When a worker handles an \<^verbatim>\<open>ACCEPT_BECOME_CHILD\<close> signature
  for a job id without an entry in its commitment map, the handler stops at its first
  statement, the assertion that the entry exists: it sends nothing and changes nothing,
  and it does not return to the message loop.
\<close>

theorem handleAcceptBecomeChild_no_commitment:
  "jobCommitments w (sig_jobId sg) = None \<Longrightarrow>
   handleAcceptBecomeChild reinitialize now source sg w = Inl AssertionFailed"
  by (simp add: handleAcceptBecomeChild_def)

theorem handleAcceptBecomeChild_no_commitment_witness:
  "jobCommitments ex_worker (sig_jobId ex_sig) = None
   \<and> handleAcceptBecomeChild ex_reinitialize 0 3 ex_sig ex_worker = Inl AssertionFailed"
proof -
  have h: "jobCommitments ex_worker (sig_jobId ex_sig) = None" by (simp add: ex_defs)
  from handleAcceptBecomeChild_no_commitment [OF h] h show ?thesis by blast
qed

text \<open>
  The claim as the specification states it (the message is ignored and the local state
  is left unchanged) fails: on worker 1, which holds no commitment, the handler does not
  return the unchanged state.
\<close>

theorem handleAcceptBecomeChild_ignored_counterexample:
  "jobCommitments ex_worker (sig_jobId ex_sig) = None
   \<and> handleAcceptBecomeChild ex_reinitialize 0 3 ex_sig ex_worker \<noteq> Inr (ex_worker, [])"
  by (simp add: handleAcceptBecomeChild_def ex_defs)

lemma setLastVolume_same: "lastVolume job = v \<Longrightarrow> setLastVolume v job = job"
  by (cases job) (simp add: setLastVolume_def)

lemma putJob_same: "jobs w j = Some job \<Longrightarrow> putJob j job w = w"
  by (cases w) (auto simp: putJob_def)

lemma updateLeft_props:
  assumes "updateLeft now j v w job = (job1, out1)"
  shows "state job1 = state job" "index job1 = index job" "lastVolume job1 = lastVolume job"
    "hasRightChild job1 = hasRightChild job" "hasJobDescription job1 = hasJobDescription job"
    "hasLeftChild job1 \<longleftrightarrow> hasLeftChild job \<and> 2 * index job + 1 < v"
    "rightChildNodeRank job1 = rightChildNodeRank job" "rootNodeRank job1 = rootNodeRank job"
    "\<not> hasLeftChild job \<Longrightarrow> job1 = job"
    "2 * index job + 1 < v \<Longrightarrow> job1 = job"
  using assms
  by (auto simp: updateLeft_def Let_def unsetLeftChild_def getLeftChildIndex_def split: if_splits)

lemma updateRight_props:
  assumes "updateRight now j v w job = (job2, out2)"
  shows "state job2 = state job" "index job2 = index job" "lastVolume job2 = lastVolume job"
    "hasLeftChild job2 = hasLeftChild job"
    "hasRightChild job2 \<longleftrightarrow> hasRightChild job \<and> 2 * index job + 2 < v"
    "\<not> hasRightChild job \<Longrightarrow> job2 = job"
    "2 * index job + 2 < v \<Longrightarrow> job2 = job"
  using assms
  by (auto simp: updateRight_def Let_def unsetRightChild_def getRightChildIndex_def split: if_splits)

text \<open>
  Claim C9. Applying a volume is idempotent on the local state: whenever
  \<^verbatim>\<open>updateVolume\<close> returns for job j and volume v, a second application of the same v to
  the state it left (at any later time) returns as well and leaves that state as it is:
  job states, child pointers, load, current job, last volume and all other fields.
\<close>

theorem updateVolume_idempotent:
  assumes "updateVolume now j v w = Inr (w1, out1)"
  shows "\<exists>out2. updateVolume now' j v w1 = Inr (w1, out2)"
proof -
  obtain job0 where j0: "jobs w j = Some job0"
    using assms by (auto simp: updateVolume_def split: option.splits)
  define job where "job = setLastVolume v job0"
  have lv: "lastVolume job = v" by (simp add: job_def setLastVolume_def)
  show ?thesis
  proof (cases "isNotInState job [ACTIVE, INITIALIZING_TO_ACTIVE]")
    case True
    with assms j0 have w1: "w1 = putJob j job w"
      by (simp add: updateVolume_def Let_def job_def)
    then have j1: "jobs w1 j = Some job" by (simp add: putJob_def)
    have "updateVolume now' j v w1 = Inr (putJob j job w1, [])"
      using j1 True by (simp add: updateVolume_def Let_def setLastVolume_same [OF lv])
    then show ?thesis using putJob_same [OF j1] by simp
  next
    case False
    obtain jobL outL where L: "updateLeft now j v w job = (jobL, outL)" by fastforce
    obtain jobR outR where R: "updateRight now j v w jobL = (jobR, outR)" by fastforce
    note pL = updateLeft_props [OF L] and pR = updateRight_props [OF R]
    have lvR: "lastVolume jobR = v" using pL(3) pR(3) lv by simp
    show ?thesis
    proof (cases "index job > 0 \<and> index job \<ge> v")
      case True
      with assms j0 False L R obtain job3 where
        s: "suspend jobR = Inr job3" and l: "setLoad now 0 j (putJob j job3 w) = Inr w1"
        by (auto simp: updateVolume_def Let_def job_def split: sum.splits)
      from s have job3: "job3 = jobR\<lparr>state := SUSPENDED, volume := 0\<rparr>"
        by (simp add: suspend_Inr)
      from l have j1: "jobs w1 j = Some job3"
        by (auto simp: setLoad0_Inr putJob_def)
      have lv3: "lastVolume job3 = v" using lvR job3 by simp
      have "isNotInState job3 [ACTIVE, INITIALIZING_TO_ACTIVE]"
        by (simp add: job3 isNotInState_def)
      then have "updateVolume now' j v w1 = Inr (putJob j job3 w1, [])"
        using j1 by (simp add: updateVolume_def Let_def setLastVolume_same [OF lv3])
      then show ?thesis using putJob_same [OF j1] by simp
    next
      case noshrink: False
      with assms j0 False L R have w1: "w1 = putJob j jobR w"
        by (auto simp: updateVolume_def Let_def job_def)
      then have j1: "jobs w1 j = Some jobR" by (simp add: putJob_def)
      have cm: "jobCommitments w1 j = jobCommitments w j" by (simp add: w1 putJob_def)
      have act: "\<not> isNotInState jobR [ACTIVE, INITIALIZING_TO_ACTIVE]"
        using False pL(1) pR(1) by (simp add: isNotInState_def)
      have idx: "index jobR = index job" using pL(2) pR(2) by simp
      obtain jobL' outL' where L': "updateLeft now' j v w1 jobR = (jobL', outL')" by fastforce
      have jL': "jobL' = jobR"
        using updateLeft_props(9,10) [OF L'] pR(4) pL(6) idx
        by (cases "hasLeftChild jobR") simp_all
      obtain jobR' outR' where R': "updateRight now' j v w1 jobR = (jobR', outR')" by fastforce
      have jR': "jobR' = jobR"
        using updateRight_props(6,7) [OF R'] pR(5) pR(2)
        by (cases "hasRightChild jobR") simp_all
      have "updateVolume now' j v w1 = Inr (putJob j jobR w1, outL' @ outR')"
        using j1 act noshrink idx L' R' jL' jR'
        by (auto simp: updateVolume_def Let_def setLastVolume_same [OF lvR])
      then show ?thesis using putJob_same [OF j1] by simp
    qed
  qed
qed


theorem updateVolume_idempotent_witness:
  "updateVolume 0 7 1 ex_worker
     = Inr (ex_worker\<lparr>jobs := [7 \<mapsto> ex_job\<lparr>state := SUSPENDED, lastVolume := 1, volume := 0\<rparr>],
              load := 0, currentJob := None\<rparr>, [])
   \<and> (\<exists>out2. updateVolume 5 7 1
        (ex_worker\<lparr>jobs := [7 \<mapsto> ex_job\<lparr>state := SUSPENDED, lastVolume := 1, volume := 0\<rparr>],
              load := 0, currentJob := None\<rparr>)
       = Inr (ex_worker\<lparr>jobs := [7 \<mapsto> ex_job\<lparr>state := SUSPENDED, lastVolume := 1, volume := 0\<rparr>],
              load := 0, currentJob := None\<rparr>, out2))"
proof -
  have h: "updateVolume 0 7 1 ex_worker
     = Inr (ex_worker\<lparr>jobs := [7 \<mapsto> ex_job\<lparr>state := SUSPENDED, lastVolume := 1, volume := 0\<rparr>],
              load := 0, currentJob := None\<rparr>, [])"
    by (simp add: vol_defs ex_defs)
  from updateVolume_idempotent [OF h, of 5] h show ?thesis by blast
qed

text \<open>
  Claim C3, as the code has it. A worker that is busy with the active fragment at index i
  of job j and applies volume v: suspends the fragment and sets its load to 0 if i \<ge> v
  and i > 0; unsets the pointer to an attached left child if 2i+1 \<ge> v, after sending that
  child the volume update like every attached child (there is no separate prune
  message); asks for a node for index 2i+1 if there is no left child, the description is
  present, 2i+1 < v and no commitment for j is outstanding; does the same for the right
  child at 2i+2; and sends nothing but these volume updates and requests.
\<close>

theorem updateVolume_active:
  assumes "jobs w j = Some job" "state job = ACTIVE" "load w = 1" "currentJob w \<noteq> None"
  shows "\<exists>w' out job'. updateVolume now j v w = Inr (w', out) \<and> jobs w' j = Some job'
     \<and> (index job \<ge> v \<and> index job > 0 \<longrightarrow> state job' = SUSPENDED \<and> load w' = 0)
     \<and> (hasLeftChild job \<and> 2 * index job + 1 \<ge> v \<longrightarrow> \<not> hasLeftChild job')
     \<and> (hasRightChild job \<and> 2 * index job + 2 \<ge> v \<longrightarrow> \<not> hasRightChild job')
     \<and> (hasLeftChild job \<longrightarrow>
           isend (leftChildNodeRank job) MSG_UPDATE_VOLUME (IntPair j v) \<in> set out)
     \<and> (hasRightChild job \<longrightarrow>
           isend (rightChildNodeRank job) MSG_UPDATE_VOLUME (IntPair j v) \<in> set out)
     \<and> (\<not> hasLeftChild job \<and> hasJobDescription job \<and> 2 * index job + 1 < v
            \<and> jobCommitments w j = None \<longrightarrow>
           isend (leftChildNodeRank job) MSG_FIND_NODE
             (Request (mkJobRequest j (rootNodeRank job) (worldRank w) (2 * index job + 1) now 0))
           \<in> set out)
     \<and> (\<not> hasRightChild job \<and> hasJobDescription job \<and> 2 * index job + 2 < v
            \<and> jobCommitments w j = None \<longrightarrow>
           isend (rightChildNodeRank job) MSG_FIND_NODE
             (Request (mkJobRequest j (rootNodeRank job) (worldRank w) (2 * index job + 2) now 0))
           \<in> set out)
     \<and> (\<forall>a \<in> set out. (\<exists>d. a = isend d MSG_UPDATE_VOLUME (IntPair j v))
                        \<or> (\<exists>d r. a = isend d MSG_FIND_NODE (Request r)))"
proof -
  define jobv where "jobv = setLastVolume v job"
  obtain jobL outL where L: "updateLeft now j v w jobv = (jobL, outL)" by fastforce
  obtain jobR outR where R: "updateRight now j v w jobL = (jobR, outR)" by fastforce
  have act: "\<not> isNotInState jobv [ACTIVE, INITIALIZING_TO_ACTIVE]"
    using assms(2) by (simp add: jobv_def isNotInState_def setLastVolume_def)
  have fv: "index jobv = index job" "hasLeftChild jobv = hasLeftChild job"
    "hasRightChild jobv = hasRightChild job" "hasJobDescription jobv = hasJobDescription job"
    "leftChildNodeRank jobv = leftChildNodeRank job" "rightChildNodeRank jobv = rightChildNodeRank job"
    "rootNodeRank jobv = rootNodeRank job" "state jobv = ACTIVE"
    using assms(2) by (simp_all add: jobv_def setLastVolume_def)
  note pL = updateLeft_props [OF L] and pR = updateRight_props [OF R]
  have outL: "outL = (if hasLeftChild job then
        [isend (leftChildNodeRank job) MSG_UPDATE_VOLUME (IntPair j v)]
      else if hasJobDescription job \<and> 2 * index job + 1 < v \<and> jobCommitments w j = None then
        [isend (leftChildNodeRank job) MSG_FIND_NODE
           (Request (mkJobRequest j (rootNodeRank job) (worldRank w) (2 * index job + 1) now 0))]
      else [])"
    using L fv by (auto simp: updateLeft_def Let_def getLeftChildIndex_def split: if_splits)
  have outR: "outR = (if hasRightChild job then
        [isend (rightChildNodeRank job) MSG_UPDATE_VOLUME (IntPair j v)]
      else if hasJobDescription job \<and> 2 * index job + 2 < v \<and> jobCommitments w j = None then
        [isend (rightChildNodeRank job) MSG_FIND_NODE
           (Request (mkJobRequest j (rootNodeRank job) (worldRank w) (2 * index job + 2) now 0))]
      else [])"
    using R fv pL by (auto simp: updateRight_def Let_def getRightChildIndex_def split: if_splits)
  have stR: "state jobR = ACTIVE" using pL(1) pR(1) fv by simp
  have hl: "\<not> hasLeftChild jobR" if "hasLeftChild job" "2 * index job + 1 \<ge> v"
    using that pL(6) pR(4) fv by simp
  have hr: "\<not> hasRightChild jobR" if "hasRightChild job" "2 * index job + 2 \<ge> v"
    using that pL(2) pR(5) fv by simp
  have msgs: "\<forall>a \<in> set (outL @ outR). (\<exists>d. a = isend d MSG_UPDATE_VOLUME (IntPair j v))
                        \<or> (\<exists>d r. a = isend d MSG_FIND_NODE (Request r))"
    unfolding outL outR by auto
  show ?thesis
  proof (cases "index job > 0 \<and> index job \<ge> v")
    case True
    define job3 where "job3 = jobR\<lparr>state := SUSPENDED, volume := 0\<rparr>"
    define w' where "w' = (putJob j job3 w)\<lparr>load := 0, lastLoadChange := now, currentJob := None\<rparr>"
    have s: "suspend jobR = Inr job3" using stR by (simp add: suspend_Inr job3_def)
    have l: "setLoad now 0 j (putJob j job3 w) = Inr w'"
      using assms(3,4) by (simp add: setLoad0_Inr w'_def putJob_def hasJob_def)
    have res: "updateVolume now j v w = Inr (w', outL @ outR)"
      using assms(1) act L R True fv s l
      by (simp add: updateVolume_def Let_def jobv_def [symmetric])
    have j': "jobs w' j = Some job3" by (simp add: w'_def putJob_def)
    have "state job3 = SUSPENDED" "load w' = 0"
      "hasLeftChild job3 = hasLeftChild jobR" "hasRightChild job3 = hasRightChild jobR"
      by (simp_all add: job3_def w'_def)
    with res j' hl hr msgs show ?thesis
      unfolding outL outR by (intro exI [of _ w'] exI [of _ "outL @ outR"] exI [of _ job3])
        (auto simp: outL outR)
  next
    case False
    have res: "updateVolume now j v w = Inr (putJob j jobR w, outL @ outR)"
      using assms(1) act L R False fv
      by (auto simp: updateVolume_def Let_def jobv_def [symmetric])
    have j': "jobs (putJob j jobR w) j = Some jobR" by (simp add: putJob_def)
    from res j' hl hr msgs False show ?thesis
      by (intro exI [of _ "putJob j jobR w"] exI [of _ "outL @ outR"] exI [of _ jobR])
        (auto simp: outL outR)
  qed
qed


theorem updateVolume_active_witness:
  "jobs ex_root_worker 7 = Some ex_root_job \<and> state ex_root_job = ACTIVE
   \<and> load ex_root_worker = 1 \<and> currentJob ex_root_worker \<noteq> None
   \<and> hasLeftChild ex_root_job \<and> 2 * index ex_root_job + 1 \<ge> 1
   \<and> (\<exists>w' out job'. updateVolume 0 7 1 ex_root_worker = Inr (w', out)
        \<and> jobs w' 7 = Some job' \<and> \<not> hasLeftChild job'
        \<and> isend (leftChildNodeRank ex_root_job) MSG_UPDATE_VOLUME (IntPair 7 1) \<in> set out)"
proof -
  have h: "jobs ex_root_worker 7 = Some ex_root_job" "state ex_root_job = ACTIVE"
    "load ex_root_worker = 1" "currentJob ex_root_worker \<noteq> None"
    by (simp_all add: ex_defs)
  have c: "hasLeftChild ex_root_job" "2 * index ex_root_job + 1 \<ge> 1"
    by (simp_all add: ex_defs)
  from updateVolume_active [OF h, of 0 1] h c show ?thesis by blast
qed

text \<open>
  The claim as the specification states it (the pruned child is sent no message) fails:
  the root of job 7 with its left child on rank 2 applies volume 1, prunes that child
  (index 1 \<ge> 1) and has sent it the volume update.
\<close>

theorem updateVolume_prune_silent_counterexample:
  "jobs ex_root_worker 7 = Some ex_root_job \<and> state ex_root_job = ACTIVE
   \<and> hasLeftChild ex_root_job \<and> leftChildNodeRank ex_root_job = 2
   \<and> 2 * index ex_root_job + 1 \<ge> 1
   \<and> updateVolume 0 7 1 ex_root_worker
       = Inr (ex_root_worker\<lparr>jobs := [7 \<mapsto> ex_root_job\<lparr>hasLeftChild := False, lastVolume := 1\<rparr>]\<rparr>,
              [isend 2 MSG_UPDATE_VOLUME (IntPair 7 1)])"
  by (simp add: vol_defs ex_defs)

lemma adopt_Inr:
  assumes "adopt params req w = Inr (w', out)"
  shows "\<exists>req'. out = [isend (requestingNodeRank req) MSG_REQUEST_BECOME_CHILD (Request req')]
          \<and> jobCommitments w' (req_jobId req) = Some req'
          \<and> req' = req\<lparr>fullTransfer := fullTransfer req'\<rparr>"
    and "\<And>k. k \<noteq> req_jobId req \<Longrightarrow> jobs w' k = jobs w k"
    and "\<And>jb. jobs w (req_jobId req) = Some jb \<Longrightarrow>
           \<exists>jb'. jobs w' (req_jobId req) = Some jb' \<and> state jb' = state jb \<and> state jb \<noteq> ACTIVE"
  using assms
  by (auto simp: adopt_def Let_def commit_def updateJobTree_def putJob_def
      split: if_splits option.splits sum.splits prod.splits)

lemma preempt_Inr:
  assumes "preempt now req w = Inr (w', out, adopts)"
  shows "\<not> adopts \<Longrightarrow> w' = w \<and> out = []"
    and "adopts \<Longrightarrow> \<exists>cj job. currentJob w = Some cj \<and> jobs w cj = Some job
            \<and> isInState job [ACTIVE] \<and> \<not> isRoot job \<and> \<not> hasLeftChild job \<and> \<not> hasRightChild job
            \<and> (case jobs w (req_jobId req) of None \<Rightarrow> True
                 | Some j \<Rightarrow> isNotInState j [ACTIVE, INITIALIZING_TO_ACTIVE])
            \<and> load w = 1
            \<and> w' = (putJob cj (job\<lparr>state := SUSPENDED, volume := 0\<rparr>) w)
                       \<lparr>load := 0, lastLoadChange := now, currentJob := None\<rparr>
            \<and> out = [isend (parentNodeRank job) MSG_WORKER_DEFECTING
                         (IntPair (job_id job) (index job))]"
  using assms
  by (auto simp: preempt_def suspend_Inr setLoad0_Inr isInState_def putJob_def
      split: if_splits option.splits sum.splits)

text \<open>
  Claim C2, as the code has it. A request for a non-root index (> 0) that arrives with
  more than 2N hops at a worker that is not idle and free of commitments is dropped: the
  state stays as it is and nothing is sent. A request for the root slot (index 0) with more
  than N/2 hops is never dropped for its hops: if the handler returns, the request was
  either adopted (the worker offered itself to the requester) or forwarded to the next
  worker with its hop count raised by one.
\<close>

theorem handleFindNode_hop_cap:
  "(\<not> (isIdle w \<and> \<not> hasJobCommitments w) \<and> requestedNodeIndex req > 0
      \<and> numHops req > 2 * commSize w
      \<longrightarrow> handleFindNode obsolete nextRank params now req w = Inr (w, []))
   \<and> (\<not> obsolete \<and> (\<forall>jb. jobs w (req_jobId req) = Some jb \<longrightarrow> state jb \<noteq> PAST)
      \<and> requestedNodeIndex req = 0 \<and> numHops req > commSize w sdiv 2
      \<and> handleFindNode obsolete nextRank params now req w = Inr (w', out)
      \<longrightarrow> (\<exists>req'. isend (requestingNodeRank req) MSG_REQUEST_BECOME_CHILD (Request req') \<in> set out)
          \<or> out = [isend nextRank MSG_FIND_NODE (Request (req\<lparr>numHops := numHops req + 1\<rparr>))])"
proof (intro conjI impI)
  assume "\<not> (isIdle w \<and> \<not> hasJobCommitments w) \<and> requestedNodeIndex req > 0
      \<and> numHops req > 2 * commSize w"
  then show "handleFindNode obsolete nextRank params now req w = Inr (w, [])"
    by (auto simp: handleFindNode_def maxJobHops_def Let_def mult.commute split: option.splits)
next
  assume a: "\<not> obsolete \<and> (\<forall>jb. jobs w (req_jobId req) = Some jb \<longrightarrow> state jb \<noteq> PAST)
      \<and> requestedNodeIndex req = 0 \<and> numHops req > commSize w sdiv 2
      \<and> handleFindNode obsolete nextRank params now req w = Inr (w', out)"
  then have np: "\<not> (case jobs w (req_jobId req) of None \<Rightarrow> False | Some j \<Rightarrow> state j = PAST)"
    by (auto split: option.splits)
  from a have a: "\<not> obsolete" "requestedNodeIndex req = 0" "numHops req > commSize w sdiv 2"
    "handleFindNode obsolete nextRank params now req w = Inr (w', out)"
    by blast+
  show "(\<exists>req'. isend (requestingNodeRank req) MSG_REQUEST_BECOME_CHILD (Request req') \<in> set out)
          \<or> out = [isend nextRank MSG_FIND_NODE (Request (req\<lparr>numHops := numHops req + 1\<rparr>))]"
  proof (cases "isIdle w \<and> \<not> hasJobCommitments w")
    case True
    with a np have "adopt params req w = Inr (w', out)"
      by (simp add: handleFindNode_def Let_def)
    from adopt_Inr(1) [OF this] show ?thesis by auto
  next
    case False
    show ?thesis
    proof (cases "hasJobCommitments w")
      case True
      with a np False have "out = bounceJobRequest nextRank req"
        by (auto simp: handleFindNode_def Let_def maxJobHops_def)
      then show ?thesis by (simp add: bounceJobRequest_def)
    next
      case nc: False
      with a np False obtain w1 out1 adopts where
        p: "preempt now req w = Inr (w1, out1, adopts)"
        and r: "if adopts then (\<exists>out'. adopt params req w1 = Inr (w', out') \<and> out = out1 @ out')
                else (w' = w1 \<and> out = out1 @ bounceJobRequest nextRank req)"
        by (auto simp: handleFindNode_def Let_def maxJobHops_def split: sum.splits if_splits)
      show ?thesis
      proof (cases adopts)
        case True
        with r obtain out' where ad: "adopt params req w1 = Inr (w', out')" and o: "out = out1 @ out'"
          by auto
        from adopt_Inr(1) [OF ad] o show ?thesis by auto
      next
        case False
        with r preempt_Inr(1) [OF p] have "out = bounceJobRequest nextRank req" by simp
        then show ?thesis by (simp add: bounceJobRequest_def)
      qed
    qed
  qed
qed


theorem handleFindNode_hop_cap_witness:
  "\<not> (isIdle ex_worker \<and> \<not> hasJobCommitments ex_worker) \<and> requestedNodeIndex ex_leaf_req > 0
   \<and> numHops ex_leaf_req > 2 * commSize ex_worker
   \<and> handleFindNode False 2 ex_job 0 ex_leaf_req ex_worker = Inr (ex_worker, [])
   \<and> requestedNodeIndex ex_root_req = 0 \<and> numHops ex_root_req > commSize ex_root_worker sdiv 2
   \<and> handleFindNode False 2 ex_job 0 ex_root_req ex_root_worker
       = Inr (ex_root_worker, [isend 2 MSG_FIND_NODE (Request (ex_root_req\<lparr>numHops := 4\<rparr>))])
   \<and> ((\<exists>req'. isend (requestingNodeRank ex_root_req) MSG_REQUEST_BECOME_CHILD (Request req')
            \<in> set [isend 2 MSG_FIND_NODE (Request (ex_root_req\<lparr>numHops := 4\<rparr>))])
       \<or> [isend 2 MSG_FIND_NODE (Request (ex_root_req\<lparr>numHops := 4\<rparr>))]
          = [isend 2 MSG_FIND_NODE (Request (ex_root_req\<lparr>numHops := numHops ex_root_req + 1\<rparr>))])"
proof -
  have a: "\<not> (isIdle ex_worker \<and> \<not> hasJobCommitments ex_worker)"
    "requestedNodeIndex ex_leaf_req > 0" "numHops ex_leaf_req > 2 * commSize ex_worker"
    by (simp_all add: isIdle_def ex_defs)
  have b: "\<not> False" "\<forall>jb. jobs ex_root_worker (req_jobId ex_root_req) = Some jb \<longrightarrow> state jb \<noteq> PAST"
    "requestedNodeIndex ex_root_req = 0" "numHops ex_root_req > commSize ex_root_worker sdiv 2"
    by (simp_all add: ex_defs signed_divide_int_def)
  have r: "handleFindNode False 2 ex_job 0 ex_root_req ex_root_worker
       = Inr (ex_root_worker, [isend 2 MSG_FIND_NODE (Request (ex_root_req\<lparr>numHops := 4\<rparr>))])"
    by (simp add: find_defs ex_defs)
  from handleFindNode_hop_cap [of ex_worker ex_leaf_req False 2 ex_job 0]
    handleFindNode_hop_cap [of ex_root_worker ex_root_req False 2 ex_job 0 ex_root_worker
      "[isend 2 MSG_FIND_NODE (Request (ex_root_req\<lparr>numHops := 4\<rparr>))]"]
    a b r
  show ?thesis by blast
qed

text \<open>
  The claim as the specification states it (a root-slot request over its cap of N/2 hops
  is dropped by a worker that does not adopt it) fails: worker 1, busy with the root of
  job 7, receives the root request of job 9 after 3 > 2 hops, does not adopt it and
  forwards it to the next rank with 4 hops.
\<close>

theorem handleFindNode_root_dropped_counterexample:
  "requestedNodeIndex ex_root_req = 0
   \<and> numHops ex_root_req > maxJobHops ex_root_worker True
   \<and> handleFindNode False 2 ex_job 0 ex_root_req ex_root_worker
       = Inr (ex_root_worker, [isend 2 MSG_FIND_NODE (Request (ex_root_req\<lparr>numHops := 4\<rparr>))])"
  by (simp add: find_defs ex_defs)

lemma handleFindNode_preempts_exact:
  assumes "\<not> obsolete" "requestedNodeIndex req = 0" "numHops req > maxJobHops w True"
    "load w = 1" "\<not> hasJobCommitments w"
    "currentJob w = Some cj" "jobs w cj = Some job" "job_id job = cj" "state job = ACTIVE"
    "\<not> isRoot job" "\<not> hasLeftChild job" "\<not> hasRightChild job"
    "\<forall>rj. jobs w (req_jobId req) = Some rj \<longrightarrow> state rj \<notin> {ACTIVE, INITIALIZING_TO_ACTIVE, PAST}"
  shows "handleFindNode obsolete nextRank params now req w
    = (let j = req_jobId req;
           known = (case jobs w j of None \<Rightarrow> newJob (commSize w) j params | Some rj \<Rightarrow> rj);
           full = (case jobs w j of None \<Rightarrow> True
                   | Some rj \<Rightarrow> \<not> hasJobDescription rj \<and> j \<notin> initializerThreads w);
           req' = req\<lparr>fullTransfer := (if full then 1 else 0)\<rparr>
       in Inr (w\<lparr>jobs := (jobs w)
                   (cj \<mapsto> job\<lparr>state := SUSPENDED, volume := 0\<rparr>,
                    j \<mapsto> known\<lparr>commitment := Some req', index := 0, rootNodeRank := - 1,
                                parentNodeRank := requestingNodeRank req\<rparr>),
                 jobCommitments := (jobCommitments w)(j \<mapsto> req'),
                 load := 0, lastLoadChange := now, currentJob := None\<rparr>,
               [isend (parentNodeRank job) MSG_WORKER_DEFECTING (IntPair cj (index job)),
                isend (requestingNodeRank req) MSG_REQUEST_BECOME_CHILD (Request req')]))"
proof -
  define job' where "job' = job\<lparr>state := SUSPENDED, volume := 0\<rparr>"
  define w1 where "w1 = (putJob cj job' w)\<lparr>load := 0, lastLoadChange := now, currentJob := None\<rparr>"
  have ne: "req_jobId req \<noteq> cj" using assms(7,9,13) by auto
  have rq: "case jobs w (req_jobId req) of None \<Rightarrow> True
          | Some j \<Rightarrow> isNotInState j [ACTIVE, INITIALIZING_TO_ACTIVE]"
    using assms(13) by (auto simp: isNotInState_def split: option.splits)
  have np: "\<not> (case jobs w (req_jobId req) of None \<Rightarrow> False | Some j \<Rightarrow> state j = PAST)"
    using assms(13) by (auto split: option.splits)
  have sl: "setLoad now 0 cj (putJob cj job' w) = Inr w1"
    using assms(4,6) by (simp add: setLoad0_Inr w1_def putJob_def hasJob_def)
  have p: "preempt now req w = Inr (w1,
      [isend (parentNodeRank job) MSG_WORKER_DEFECTING (IntPair cj (index job))], True)"
    using rq assms(6-12) sl
    by (simp add: preempt_def isInState_def suspend_def job'_def [symmetric])
  have j1: "jobs w1 (req_jobId req) = jobs w (req_jobId req)"
    using ne by (simp add: w1_def putJob_def)
  have busy: "\<not> isIdle w" using assms(4) by (simp add: isIdle_def)
  have h: "handleFindNode obsolete nextRank params now req w
      = (case adopt params req w1 of Inl e \<Rightarrow> Inl e
         | Inr (w'', out') \<Rightarrow> Inr (w'',
             [isend (parentNodeRank job) MSG_WORKER_DEFECTING (IntPair cj (index job))] @ out'))"
    using assms(1-3,5) np busy p by (simp add: handleFindNode_def Let_def)
  show ?thesis
  proof (cases "jobs w (req_jobId req)")
    case None
    then show ?thesis unfolding h using j1 assms(2) ne
      by (simp add: adopt_def Let_def commit_def updateJobTree_def newJob_def putJob_def w1_def
          isIdle_def job'_def fun_upd_twist)
  next
    case (Some rj)
    with assms(13) have "state rj \<noteq> ACTIVE" "state rj \<noteq> PAST" by auto
    with Some show ?thesis unfolding h using j1 assms(2) ne
      by (simp add: adopt_def Let_def commit_def updateJobTree_def putJob_def w1_def
          isIdle_def job'_def fun_upd_twist)
  qed
qed

lemma handleFindNode_only_preemption:
  assumes h: "handleFindNode obsolete nextRank params now req w = Inr (w2, out)"
    and jb: "jobs w k = Some jb" "state jb = ACTIVE"
    and jb2: "jobs w2 k = Some jb2" "state jb2 \<noteq> ACTIVE"
  shows "\<not> obsolete \<and> requestedNodeIndex req = 0 \<and> numHops req > maxJobHops w True
     \<and> load w = 1 \<and> \<not> hasJobCommitments w \<and> currentJob w = Some k
     \<and> \<not> isRoot jb \<and> \<not> hasLeftChild jb \<and> \<not> hasRightChild jb
     \<and> (\<forall>rj. jobs w (req_jobId req) = Some rj \<longrightarrow> state rj \<notin> {ACTIVE, INITIALIZING_TO_ACTIVE})
     \<and> state jb2 = SUSPENDED
     \<and> isend (parentNodeRank jb) MSG_WORKER_DEFECTING (IntPair (job_id jb) (index jb)) \<in> set out"
proof -
  have same: False if "w2 = w" using that jb jb2 by simp
  have adopt_keeps: False if "adopt params req w = Inr (w2, out')" for out'
    using adopt_Inr(2,3) [OF that] jb jb2 by (cases "k = req_jobId req") auto
  have no: "\<not> obsolete" using h same by (auto simp: handleFindNode_def)
  have np: "\<not> (case jobs w (req_jobId req) of None \<Rightarrow> False | Some j \<Rightarrow> state j = PAST)"
    using h same no by (auto simp: handleFindNode_def)
  have ni: "\<not> (isIdle w \<and> \<not> hasJobCommitments w)"
  proof
    assume "isIdle w \<and> \<not> hasJobCommitments w"
    with h no np have "adopt params req w = Inr (w2, out)"
      by (simp add: handleFindNode_def Let_def)
    then show False by (rule adopt_keeps)
  qed
  have br: "numHops req > maxJobHops w True \<and> requestedNodeIndex req = 0 \<and> \<not> hasJobCommitments w"
    using h no np ni same by (auto simp: handleFindNode_def Let_def split: if_splits)
  with h no np ni obtain w1 out1 adopts where
    p: "preempt now req w = Inr (w1, out1, adopts)"
    and r: "if adopts then (\<exists>out'. adopt params req w1 = Inr (w2, out') \<and> out = out1 @ out')
            else (w2 = w1 \<and> out = out1 @ bounceJobRequest nextRank req)"
    by (auto simp: handleFindNode_def Let_def split: sum.splits if_splits)
  have ad: adopts using r preempt_Inr(1) [OF p] same by (cases adopts) auto
  with r obtain out' where a2: "adopt params req w1 = Inr (w2, out')" and o: "out = out1 @ out'"
    by auto
  from preempt_Inr(2) [OF p ad] obtain cj job where
    c: "currentJob w = Some cj" "jobs w cj = Some job" "isInState job [ACTIVE]"
      "\<not> isRoot job" "\<not> hasLeftChild job" "\<not> hasRightChild job"
      "case jobs w (req_jobId req) of None \<Rightarrow> True
         | Some j \<Rightarrow> isNotInState j [ACTIVE, INITIALIZING_TO_ACTIVE]"
      "load w = 1"
      "w1 = (putJob cj (job\<lparr>state := SUSPENDED, volume := 0\<rparr>) w)
                       \<lparr>load := 0, lastLoadChange := now, currentJob := None\<rparr>"
      "out1 = [isend (parentNodeRank job) MSG_WORKER_DEFECTING (IntPair (job_id job) (index job))]"
    by blast
  have kcj: "k = cj"
  proof (rule ccontr)
    assume "k \<noteq> cj"
    then have "jobs w1 k = Some jb" using jb c(9) by (simp add: putJob_def)
    with adopt_Inr(2,3) [OF a2] jb jb2 show False by (cases "k = req_jobId req") auto
  qed
  then have jbjob: "jb = job" using jb c(2) by simp
  have ne: "req_jobId req \<noteq> cj"
    using c(2,3,7) by (auto simp: isInState_def isNotInState_def)
  have "jobs w2 cj = jobs w1 cj" using adopt_Inr(2) [OF a2, of cj] ne by simp
  then have "jb2 = job\<lparr>state := SUSPENDED, volume := 0\<rparr>"
    using jb2 kcj c(9) by (simp add: putJob_def)
  then have s2: "state jb2 = SUSPENDED" by simp
  have rq: "\<forall>rj. jobs w (req_jobId req) = Some rj \<longrightarrow> state rj \<notin> {ACTIVE, INITIALIZING_TO_ACTIVE}"
    using c(7) by (auto simp: isNotInState_def)
  from no br c kcj jbjob s2 rq o show ?thesis by simp
qed

text \<open>
  Claim C5, as the code has it. A root-slot request (index 0) that is not obsolete and
  whose job is not known as finished at the worker, with more hops than its cap, at a
  busy worker (load 1) without commitments whose current job is active, non-root and
  childless and which does not compute on the requested job: the current job is
  suspended with volume 0 and the worker becomes idle, the parent of that job is sent
  the defection notice, and the request is adopted: the worker creates the requested job
  if it does not know it, commits that job to the request as the root of its tree under
  the requesting rank, records the commitment and offers itself to the requester, asking
  for the full description where it has none. Conversely, whenever the handler returns
  and a job that was active is no longer active, all of these conditions held, that job
  was the current job, it is now suspended, and the defection notice was sent.
\<close>

theorem handleFindNode_preemption:
  "(\<not> obsolete \<and> requestedNodeIndex req = 0 \<and> numHops req > maxJobHops w True
      \<and> load w = 1 \<and> \<not> hasJobCommitments w
      \<and> currentJob w = Some cj \<and> jobs w cj = Some job \<and> job_id job = cj \<and> state job = ACTIVE
      \<and> \<not> isRoot job \<and> \<not> hasLeftChild job \<and> \<not> hasRightChild job
      \<and> (\<forall>rj. jobs w (req_jobId req) = Some rj \<longrightarrow>
            state rj \<notin> {ACTIVE, INITIALIZING_TO_ACTIVE, PAST})
     \<longrightarrow> handleFindNode obsolete nextRank params now req w
        = (let j = req_jobId req;
               known = (case jobs w j of None \<Rightarrow> newJob (commSize w) j params | Some rj \<Rightarrow> rj);
               full = (case jobs w j of None \<Rightarrow> True
                       | Some rj \<Rightarrow> \<not> hasJobDescription rj \<and> j \<notin> initializerThreads w);
               req' = req\<lparr>fullTransfer := (if full then 1 else 0)\<rparr>
           in Inr (w\<lparr>jobs := (jobs w)
                       (cj \<mapsto> job\<lparr>state := SUSPENDED, volume := 0\<rparr>,
                        j \<mapsto> known\<lparr>commitment := Some req', index := 0, rootNodeRank := - 1,
                                    parentNodeRank := requestingNodeRank req\<rparr>),
                     jobCommitments := (jobCommitments w)(j \<mapsto> req'),
                     load := 0, lastLoadChange := now, currentJob := None\<rparr>,
                   [isend (parentNodeRank job) MSG_WORKER_DEFECTING (IntPair cj (index job)),
                    isend (requestingNodeRank req) MSG_REQUEST_BECOME_CHILD (Request req')])))
   \<and> (handleFindNode obsolete nextRank params now req w = Inr (w2, out)
      \<and> jobs w k = Some jb \<and> state jb = ACTIVE \<and> jobs w2 k = Some jb2 \<and> state jb2 \<noteq> ACTIVE
     \<longrightarrow> \<not> obsolete \<and> requestedNodeIndex req = 0 \<and> numHops req > maxJobHops w True
       \<and> load w = 1 \<and> \<not> hasJobCommitments w \<and> currentJob w = Some k
       \<and> \<not> isRoot jb \<and> \<not> hasLeftChild jb \<and> \<not> hasRightChild jb
       \<and> (\<forall>rj. jobs w (req_jobId req) = Some rj \<longrightarrow>
             state rj \<notin> {ACTIVE, INITIALIZING_TO_ACTIVE, PAST})
       \<and> state jb2 = SUSPENDED
       \<and> isend (parentNodeRank jb) MSG_WORKER_DEFECTING (IntPair (job_id jb) (index jb)) \<in> set out)"
proof -
  have only: "\<not> obsolete \<and> requestedNodeIndex req = 0 \<and> numHops req > maxJobHops w True
       \<and> load w = 1 \<and> \<not> hasJobCommitments w \<and> currentJob w = Some k
       \<and> \<not> isRoot jb \<and> \<not> hasLeftChild jb \<and> \<not> hasRightChild jb
       \<and> (\<forall>rj. jobs w (req_jobId req) = Some rj \<longrightarrow>
             state rj \<notin> {ACTIVE, INITIALIZING_TO_ACTIVE, PAST})
       \<and> state jb2 = SUSPENDED
       \<and> isend (parentNodeRank jb) MSG_WORKER_DEFECTING (IntPair (job_id jb) (index jb)) \<in> set out"
    if a: "handleFindNode obsolete nextRank params now req w = Inr (w2, out)"
      "jobs w k = Some jb" "state jb = ACTIVE" "jobs w2 k = Some jb2" "state jb2 \<noteq> ACTIVE"
  proof -
    note o = handleFindNode_only_preemption [OF a]
    have np: "state rj \<noteq> PAST" if rj: "jobs w (req_jobId req) = Some rj" for rj
    proof
      assume "state rj = PAST"
      with rj o a(1) have "w2 = w" by (simp add: handleFindNode_def)
      with a(2-5) show False by simp
    qed
    from o np show ?thesis by auto
  qed
  from handleFindNode_preempts_exact [of obsolete req w cj job nextRank params now] only
  show ?thesis by blast
qed

text \<open>
  Worker 1 of the example receives the root request for job 9 after three hops.
\<close>

theorem handleFindNode_preemption_witness:
  "requestedNodeIndex ex_root_req = 0
   \<and> numHops ex_root_req > maxJobHops ex_worker True
   \<and> load ex_worker = 1 \<and> \<not> hasJobCommitments ex_worker
   \<and> currentJob ex_worker = Some 7 \<and> jobs ex_worker 7 = Some ex_job \<and> job_id ex_job = 7
   \<and> state ex_job = ACTIVE
   \<and> \<not> isRoot ex_job \<and> \<not> hasLeftChild ex_job \<and> \<not> hasRightChild ex_job
   \<and> jobs ex_worker (req_jobId ex_root_req) = None
   \<and> handleFindNode False 2 ex_job 0 ex_root_req ex_worker
       = Inr (ex_worker\<lparr>jobs :=
                 [7 \<mapsto> ex_job\<lparr>state := SUSPENDED, volume := 0\<rparr>,
                  9 \<mapsto> (newJob 4 9 ex_job)\<lparr>commitment := Some (ex_root_req\<lparr>fullTransfer := 1\<rparr>),
                         index := 0, rootNodeRank := - 1, parentNodeRank := 3\<rparr>],
               jobCommitments := [9 \<mapsto> ex_root_req\<lparr>fullTransfer := 1\<rparr>],
               load := 0, lastLoadChange := 0, currentJob := None\<rparr>,
              [isend 0 MSG_WORKER_DEFECTING (IntPair 7 1),
               isend 3 MSG_REQUEST_BECOME_CHILD (Request (ex_root_req\<lparr>fullTransfer := 1\<rparr>))])
   \<and> state (ex_job\<lparr>state := SUSPENDED, volume := 0\<rparr>) \<noteq> ACTIVE
   \<and> isend (parentNodeRank ex_job) MSG_WORKER_DEFECTING (IntPair (job_id ex_job) (index ex_job))
       \<in> set [isend 0 MSG_WORKER_DEFECTING (IntPair 7 1),
               isend 3 MSG_REQUEST_BECOME_CHILD (Request (ex_root_req\<lparr>fullTransfer := 1\<rparr>))]"
proof -
  have c: "\<not> False \<and> requestedNodeIndex ex_root_req = 0
     \<and> numHops ex_root_req > maxJobHops ex_worker True
     \<and> load ex_worker = 1 \<and> \<not> hasJobCommitments ex_worker
     \<and> currentJob ex_worker = Some 7 \<and> jobs ex_worker 7 = Some ex_job \<and> job_id ex_job = 7
     \<and> state ex_job = ACTIVE
     \<and> \<not> isRoot ex_job \<and> \<not> hasLeftChild ex_job \<and> \<not> hasRightChild ex_job
     \<and> (\<forall>rj. jobs ex_worker (req_jobId ex_root_req) = Some rj \<longrightarrow>
            state rj \<notin> {ACTIVE, INITIALIZING_TO_ACTIVE, PAST})"
    by (simp add: ex_defs maxJobHops_def hasJobCommitments_def isRoot_def signed_divide_int_def)
  have n: "jobs ex_worker (req_jobId ex_root_req) = None" by (simp add: ex_defs)
  let ?w' = "ex_worker\<lparr>jobs :=
                 [7 \<mapsto> ex_job\<lparr>state := SUSPENDED, volume := 0\<rparr>,
                  9 \<mapsto> (newJob 4 9 ex_job)\<lparr>commitment := Some (ex_root_req\<lparr>fullTransfer := 1\<rparr>),
                         index := 0, rootNodeRank := - 1, parentNodeRank := 3\<rparr>],
               jobCommitments := [9 \<mapsto> ex_root_req\<lparr>fullTransfer := 1\<rparr>],
               load := 0, lastLoadChange := 0, currentJob := None\<rparr>"
  let ?out = "[isend 0 MSG_WORKER_DEFECTING (IntPair 7 1),
               isend 3 MSG_REQUEST_BECOME_CHILD (Request (ex_root_req\<lparr>fullTransfer := 1\<rparr>))]"
  from handleFindNode_preemption [of False ex_root_req ex_worker 7 ex_job 2 ex_job 0] c
  have "handleFindNode False 2 ex_job 0 ex_root_req ex_worker
        = (let j = req_jobId ex_root_req;
               known = (case jobs ex_worker j of None \<Rightarrow> newJob (commSize ex_worker) j ex_job
                        | Some rj \<Rightarrow> rj);
               full = (case jobs ex_worker j of None \<Rightarrow> True
                       | Some rj \<Rightarrow> \<not> hasJobDescription rj \<and> j \<notin> initializerThreads ex_worker);
               req' = ex_root_req\<lparr>fullTransfer := (if full then 1 else 0)\<rparr>
           in Inr (ex_worker\<lparr>jobs := (jobs ex_worker)
                       (7 \<mapsto> ex_job\<lparr>state := SUSPENDED, volume := 0\<rparr>,
                        j \<mapsto> known\<lparr>commitment := Some req', index := 0, rootNodeRank := - 1,
                                    parentNodeRank := requestingNodeRank ex_root_req\<rparr>),
                     jobCommitments := (jobCommitments ex_worker)(j \<mapsto> req'),
                     load := 0, lastLoadChange := 0, currentJob := None\<rparr>,
                   [isend (parentNodeRank ex_job) MSG_WORKER_DEFECTING (IntPair 7 (index ex_job)),
                    isend (requestingNodeRank ex_root_req) MSG_REQUEST_BECOME_CHILD (Request req')]))"
    by blast
  then have r: "handleFindNode False 2 ex_job 0 ex_root_req ex_worker = Inr (?w', ?out)"
    by (simp add: ex_defs Let_def)
  have j: "jobs ex_worker 7 = Some ex_job" "state ex_job = ACTIVE" using c by simp_all
  have j2: "jobs ?w' 7 = Some (ex_job\<lparr>state := SUSPENDED, volume := 0\<rparr>)"
    "state (ex_job\<lparr>state := SUSPENDED, volume := 0\<rparr>) \<noteq> ACTIVE" by simp_all
  from handleFindNode_preemption [of False ex_root_req ex_worker 7 ex_job 2 ex_job 0 ?w' ?out
      7 ex_job "ex_job\<lparr>state := SUSPENDED, volume := 0\<rparr>"] r j j2
  have "isend (parentNodeRank ex_job) MSG_WORKER_DEFECTING (IntPair (job_id ex_job) (index ex_job))
       \<in> set ?out" by blast
  with c n r j2 show ?thesis by simp
qed

text \<open>
  The claim as the specification states it fails for a request that the handler discards
  before it looks at the hops: worker 1 knows job 9 as finished, or the request is
  obsolete, and the request is dropped while job 7 stays active and nothing is sent.
\<close>

theorem handleFindNode_discards_counterexample:
  "requestedNodeIndex ex_root_req = 0 \<and> numHops ex_root_req > maxJobHops ex_past_worker True
   \<and> load ex_past_worker = 1 \<and> \<not> hasJobCommitments ex_past_worker
   \<and> currentJob ex_past_worker = Some 7 \<and> jobs ex_past_worker 7 = Some ex_job
   \<and> state ex_job = ACTIVE \<and> \<not> isRoot ex_job \<and> \<not> hasLeftChild ex_job \<and> \<not> hasRightChild ex_job
   \<and> jobs ex_past_worker (req_jobId ex_root_req) = Some (ex_job\<lparr>job_id := 9, state := PAST\<rparr>)
   \<and> handleFindNode False 2 ex_job 0 ex_root_req ex_past_worker = Inr (ex_past_worker, [])
   \<and> jobs ex_worker (req_jobId ex_root_req) = None
   \<and> handleFindNode True 2 ex_job 0 ex_root_req ex_worker = Inr (ex_worker, [])"
  by (simp add: find_defs ex_defs ex_past_worker_def)

subsection \<open>Floating-point arithmetic\<close>

lemma find_upto_Some:
  assumes "i \<le> e" "e \<le> j" "P e" "\<And>k. i \<le> k \<Longrightarrow> k < e \<Longrightarrow> \<not> P k"
  shows "find P [i..j] = Some e"
  using assms
proof (induction "nat (e - i)" arbitrary: i)
  case 0
  then have "i = e" by simp
  with 0 show ?case by (simp add: upto_rec1)
next
  case (Suc n)
  then have lt: "i < e" by simp
  then have np: "\<not> P i" using Suc.prems(4) by simp
  have "find P [i + 1..j] = Some e"
  proof (rule Suc.hyps(1))
    show "n = nat (e - (i + 1))" using Suc.hyps(2) by simp
    show "i + 1 \<le> e" using lt by simp
    show "e \<le> j" by fact
    show "P e" by fact
    show "\<not> P k" if "i + 1 \<le> k" "k < e" for k using Suc.prems(4) [of k] that by simp
  qed
  moreover have "[i..j] = i # [i + 1..j]" using lt Suc.prems(2) by (simp add: upto_rec1)
  ultimately show ?case using np by simp
qed

lemma float_exponent_eq:
  assumes "emin \<le> e" "e \<le> emax" "emin < e \<longrightarrow> 2 powi e \<le> \<bar>x\<bar>" "\<bar>x\<bar> < 2 powi (e + 1)"
  shows "float_exponent emin emax x = Some e"
  unfolding float_exponent_def
proof (rule find_upto_Some)
  show "emin \<le> e" "e \<le> emax" "\<bar>x\<bar> < 2 powi (e + 1)" by fact+
  show "\<not> \<bar>x\<bar> < 2 powi (k + 1)" if "emin \<le> k" "k < e" for k
  proof -
    from that have "emin < e" by simp
    with assms(3) have "2 powi e \<le> \<bar>x\<bar>" by simp
    moreover have "(2::real) powi (k + 1) \<le> 2 powi e"
      using that(2) by (intro power_int_increasing) simp_all
    ultimately show ?thesis by simp
  qed
qed

lemma round_float_eq:
  assumes "emin \<le> e" "e \<le> emax" "emin < e \<longrightarrow> 2 powi e \<le> \<bar>x\<bar>" "\<bar>x\<bar> < 2 powi (e + 1)"
  shows "round_float p emin emax x
    = of_int (round_even (x / 2 powi (e - p + 1))) * 2 powi (e - p + 1)"
  using float_exponent_eq [OF assms] by (simp add: round_float_def Let_def)

lemma round_even_of_int [simp]: "round_even (of_int k) = k"
  by (simp add: round_even_def)


lemma round_even_near:
  assumes "\<bar>r - of_int m\<bar> < 1 / 2"
  shows "round_even r = m"
proof -
  consider "of_int m \<le> r" | "r < of_int m" by linarith
  then show ?thesis
  proof cases
    case 1
    with assms have "\<lfloor>r\<rfloor> = m" by (intro floor_unique) linarith+
    with assms 1 show ?thesis by (simp add: round_even_def Let_def)
  next
    case 2
    with assms have f: "\<lfloor>r\<rfloor> = m - 1" by (intro floor_unique) (simp, linarith+)
    with assms 2 show ?thesis by (simp add: round_even_def Let_def)
  qed
qed

lemma round_float_near:
  assumes "emin \<le> e" "e \<le> emax" "emin < e \<longrightarrow> 2 powi e \<le> \<bar>x\<bar>" "\<bar>x\<bar> < 2 powi (e + 1)"
    and "\<bar>x * 2 powi (p - 1 - e) - of_int m\<bar> < 1 / 2"
  shows "round_float p emin emax x = of_int m * 2 powi (e - p + 1)"
proof -
  have "x / 2 powi (e - p + 1) = x * 2 powi (p - 1 - e)"
    by (simp add: power_int_diff power_int_add field_simps)
  with assms(5) have "round_even (x / 2 powi (e - p + 1)) = m"
    by (intro round_even_near) simp
  then show ?thesis using round_float_eq [OF assms(1-4), of p] by simp
qed







lemma round_float_zero:
  assumes "emin \<le> emax"
  shows "round_float p emin emax 0 = 0"
proof -
  have "float_exponent emin emax 0 = Some emin"
    using assms by (intro float_exponent_eq) simp_all
  moreover have "round_even 0 = 0" using round_even_of_int [of 0] by simp
  ultimately show ?thesis by (simp add: round_float_def)
qed

lemma round_float_dyadic:
  assumes "\<bar>k\<bar> < 2 ^ p" "emin \<le> - int n" "int p \<le> emax + 1" "emin \<le> emax"
  shows "round_float (int p) emin emax (of_int k / 2 ^ n) = of_int k / 2 ^ n"
proof (cases "k = 0")
  case True
  with assms(4) show ?thesis by (simp add: round_float_zero)
next
  case False
  let ?x = "of_int k / (2::real) ^ n"
  from False have "1 \<le> nat \<bar>k\<bar>" by simp
  then obtain m where m: "2 ^ m \<le> nat \<bar>k\<bar>" "nat \<bar>k\<bar> < 2 ^ (m + 1)"
    using ex_power_ivl1 [of 2 "nat \<bar>k\<bar>"] by auto
  have "int (2 ^ m) \<le> int (nat \<bar>k\<bar>)" using m(1) by (simp only: of_nat_le_iff)
  then have lo: "(2::int) ^ m \<le> \<bar>k\<bar>" by simp
  have "int (nat \<bar>k\<bar>) < int (2 ^ (m + 1))" using m(2) by (simp only: of_nat_less_iff)
  then have hi: "\<bar>k\<bar> < (2::int) ^ (m + 1)" by simp
  from lo assms(1) have "(2::int) ^ m < 2 ^ p" by linarith
  then have mp: "m < p" by simp
  have ax: "\<bar>?x\<bar> = of_int \<bar>k\<bar> / 2 ^ n" by simp
  have pw: "(2::real) powi (int m - int n) = 2 ^ m / 2 ^ n"
    by (simp add: power_int_diff)
  have pw1: "(2::real) powi (int m - int n + 1) = 2 ^ (m + 1) / 2 ^ n"
  proof -
    have "(2::real) powi (int m - int n + 1) = 2 powi (int (m + 1) - int n)"
      by (rule arg_cong [where f = "\<lambda>z. 2 powi z"]) simp
    also have "\<dots> = 2 powi int (m + 1) / 2 powi int n" by (rule power_int_diff) simp
    also have "\<dots> = 2 ^ (m + 1) / 2 ^ n" by (simp only: power_int_of_nat)
    finally show ?thesis .
  qed
  have rlo: "(2::real) powi (int m - int n) \<le> \<bar>?x\<bar>"
  proof -
    have "(of_int (2 ^ m) :: real) \<le> of_int \<bar>k\<bar>" using lo by (simp only: of_int_le_iff)
    then have "(2::real) ^ m \<le> of_int \<bar>k\<bar>" by simp
    then have "(2::real) ^ m / 2 ^ n \<le> of_int \<bar>k\<bar> / 2 ^ n" by (simp add: divide_right_mono)
    then show ?thesis unfolding ax pw .
  qed
  have rhi: "\<bar>?x\<bar> < 2 powi (int m - int n + 1)"
  proof -
    have "(of_int \<bar>k\<bar> :: real) < of_int (2 ^ (m + 1))" using hi by (simp only: of_int_less_iff)
    then have "(of_int \<bar>k\<bar> :: real) < 2 ^ (m + 1)" by simp
    then have "of_int \<bar>k\<bar> / 2 ^ n < (2::real) ^ (m + 1) / 2 ^ n"
      by (simp add: divide_strict_right_mono)
    then show ?thesis unfolding ax pw1 .
  qed
  let ?e = "int m - int n"
  have r: "round_float (int p) emin emax ?x
      = of_int (round_even (?x / 2 powi (?e - int p + 1))) * 2 powi (?e - int p + 1)"
    using assms(2,3) mp rlo rhi by (intro round_float_eq) simp_all
  have e: "(2::real) powi (?e - int p + 1) = 1 / (2 ^ (p - 1 - m) * 2 ^ n)"
  proof -
    have h: "?e - int p + 1 = - int (p - 1 - m + n)" using mp by simp
    have "(2::real) powi (?e - int p + 1) = 2 powi (- int (p - 1 - m + n))"
      by (simp only: h)
    also have "\<dots> = inverse (2 powi int (p - 1 - m + n))" by (rule power_int_minus)
    also have "\<dots> = 1 / 2 ^ (p - 1 - m + n)" by (simp only: power_int_of_nat inverse_eq_divide)
    also have "\<dots> = 1 / (2 ^ (p - 1 - m) * 2 ^ n)" by (simp only: power_add)
    finally show ?thesis .
  qed
  have "?x / (2::real) powi (?e - int p + 1) = of_int (k * 2 ^ (p - 1 - m))"
    unfolding e by simp
  then have "round_even (?x / 2 powi (?e - int p + 1)) = k * 2 ^ (p - 1 - m)"
    by (simp only: round_even_of_int)
  then show ?thesis unfolding r by (simp add: e)
qed

lemma fl32_dyadic: "\<bar>k\<bar> < 2 ^ 24 \<Longrightarrow> n \<le> 126 \<Longrightarrow> fl32 (of_int k / 2 ^ n) = of_int k / 2 ^ n"
  unfolding fl32_def using round_float_dyadic [of k 24 "- 126" n 127] by simp

lemma fl32_of_int: "\<bar>k\<bar> < 2 ^ 24 \<Longrightarrow> fl32 (of_int k) = of_int k"
  using fl32_dyadic [of k 0] by simp


lemma fl32_near:
  assumes "- 126 \<le> e" "e \<le> 127" "- 126 < e \<longrightarrow> 2 powi e \<le> \<bar>x\<bar>" "\<bar>x\<bar> < 2 powi (e + 1)"
    and "\<bar>x * 2 powi (23 - e) - of_int m\<bar> < 1 / 2"
  shows "fl32 x = of_int m * 2 powi (e - 23)"
  unfolding fl32_def using round_float_near [OF assms(1-4), of 24 m] assms(5) by simp

lemmas fl_eval = power_int_def power_divide abs_if

lemma fl32_numeral:
  "numeral n < (2 ^ 24 :: int) \<Longrightarrow> fl32 (numeral n) = numeral n"
  "numeral n < (2 ^ 24 :: int) \<Longrightarrow> fl32 (- numeral n) = - numeral n"
  "fl32 0 = 0" "fl32 1 = 1" "fl32 (- 1) = - 1"
  using fl32_of_int [of "numeral n"] fl32_of_int [of "- numeral n"] fl32_of_int [of 0]
    fl32_of_int [of 1] fl32_of_int [of "- 1"]
  by simp_all

subsection \<open>The demand curve\<close>










lemma fl32_tenth: "fl32 (13421773 / 134217728) = 13421773 / 134217728"
  using fl32_dyadic [of 13421773 27] by simp



lemma not_infinite32 [simp]: "\<bar>x\<bar> < 2 ^ 128 \<Longrightarrow> \<not> infinite32 x"
  by (simp add: infinite32_def)






subsection \<open>Bisection rounding\<close>

lemma round1_nonneg:
  "0 \<le> x \<Longrightarrow> round1 remainder x = (if x - of_int \<lfloor>x\<rfloor> \<ge> remainder then \<lceil>x\<rceil> else \<lfloor>x\<rfloor>)"
  by (auto simp: round1_def trunc_def Let_def)

lemma prefers_irrefl: "\<not> prefers d d"
  by (auto simp: prefers_def)

lemma prefers_trans: "prefers a c \<Longrightarrow> prefers c d \<Longrightarrow> prefers a d"
  unfolding prefers_def by argo

lemma sdiv2_range:
  fixes l u :: int assumes "0 \<le> l" "l \<le> u + 1" "u \<le> n" "0 \<le> n"
  shows "0 \<le> (l + u) sdiv 2" "(l + u) sdiv 2 \<le> n"
proof -
  consider "0 \<le> l + u" | "l + u < 0" by linarith
  then have "0 \<le> (l + u) sdiv 2 \<and> (l + u) sdiv 2 \<le> n"
  proof cases
    case 1
    then have "(l + u) sdiv 2 = (l + u) div 2" by (rule sdiv2_nonneg)
    with 1 assms show ?thesis by linarith
  next
    case 2
    with assms have "l + u = - 1" by linarith
    then have "(l + u) sdiv 2 = 0" by (simp add: signed_divide_int_def)
    with assms show ?thesis by linarith
  qed
  then show "0 \<le> (l + u) sdiv 2" "(l + u) sdiv 2 \<le> n" by simp_all
qed

lemma trial_idx_range:
  assumes "bounds_ok b s"
  shows "0 \<le> trial_idx s" "trial_idx s \<le> int (length (remainders b))"
  using assms sdiv2_range [of "lower_remainder_idx s" "upper_remainder_idx s" "int (length (remainders b))"]
  by (simp_all add: bounds_ok_def trial_idx_def)

lemma nextRound_bounds_ok:
  assumes "bounds_ok b s"
  shows "bounds_ok b (nextRound b s)"
proof (cases "lower_remainder_idx s < upper_remainder_idx s")
  case True
  note bd = sdiv2_bounds [OF True]
  have "(lower_remainder_idx s + upper_remainder_idx s) sdiv 2 < upper_remainder_idx s"
    using True assms sdiv2_mid(1) by (simp add: bounds_ok_def)
  with bd assms True show ?thesis
    by (auto simp: bounds_ok_def nextRound_def bisect_def Let_def trial_idx_def)
next
  case False
  with assms show ?thesis
    by (auto simp: bounds_ok_def nextRound_def bisect_def Let_def)
qed

lemma fromReduction_good:
  assumes "best_so_far vs b s" "0 \<le> trial_idx s"
  shows "best_so_far (vs @ [s]) b (fromReduction b s)"
proof -
  let ?d = "diff_of b s"
  let ?s' = "s\<lparr>rounding_iterations := rounding_iterations s + 1\<rparr>"
  have fr: "fromReduction b s = storeBest ?d (trial_idx s) (utilization_of b s) ?s'"
    by (simp add: fromReduction_def diff_of_def Let_def)
  show ?thesis
  proof (cases "best_remainder_idx s = - 1 \<or> prefers ?d (best_utilization_diff s)")
    case True
    then have st: "fromReduction b s = ?s'\<lparr>best_utilization_diff := ?d,
        best_remainder_idx := trial_idx s, best_utilization := utilization_of b s\<rparr>"
      unfolding fr by (auto simp: storeBest_def prefers_def)
    have others: "\<not> prefers (diff_of b v) ?d" if "v \<in> set vs" for v
    proof -
      from that have ne: "vs \<noteq> []" by auto
      with assms(1) have b0: "0 \<le> best_remainder_idx s" and ba: "best_among vs b s"
        by (simp_all add: best_so_far_def)
      from b0 True have p: "prefers ?d (best_utilization_diff s)" by auto
      from ba that have "\<not> prefers (diff_of b v) (best_utilization_diff s)"
        by (simp add: best_among_def)
      with p prefers_trans show ?thesis by blast
    qed
    show ?thesis
      unfolding best_so_far_def best_among_def st using assms(2) others prefers_irrefl by auto
  next
    case False
    then have st: "fromReduction b s = ?s'"
      unfolding fr by (auto simp: storeBest_def prefers_def)
    from False have nb: "best_remainder_idx s \<noteq> - 1" by simp
    with assms(1) have ne: "vs \<noteq> []" and b0: "0 \<le> best_remainder_idx s"
      and ba: "best_among vs b s"
      by (auto simp: best_so_far_def split: if_splits)
    from ba False b0 show ?thesis
      unfolding best_so_far_def best_among_def st by auto
  qed
qed

lemma good_cong:
  "best_so_far vs b s \<Longrightarrow> best_remainder_idx s' = best_remainder_idx s \<Longrightarrow>
   best_utilization_diff s' = best_utilization_diff s \<Longrightarrow>
   best_utilization s' = best_utilization s \<Longrightarrow> best_so_far vs b s'"
  by (auto simp: best_so_far_def best_among_def split: if_splits)

lemma nextRound_best [simp]:
  "best_remainder_idx (nextRound b s) = best_remainder_idx (fromReduction b s)"
  "best_utilization_diff (nextRound b s) = best_utilization_diff (fromReduction b s)"
  "best_utilization (nextRound b s) = best_utilization (fromReduction b s)"
  by (simp_all add: nextRound_def bisect_def Let_def)

lemma continueRounding_good:
  "bounds_ok b s \<Longrightarrow> best_so_far vs b s \<Longrightarrow> best_so_far (vs @ visited b s) b (continueRounding b s)"
proof (induction b s arbitrary: vs rule: continueRounding.induct)
  case (1 b s)
  have g1: "best_so_far (vs @ [s]) b (fromReduction b s)"
    using fromReduction_good [OF "1.prems"(2)] trial_idx_range(1) [OF "1.prems"(1)] by simp
  show ?case
  proof (cases "utilization_of b s = last_utilization s")
    case True
    with g1 show ?thesis by (simp add: visited.simps [of b s] continueRounding.simps [of b s])
  next
    case False
    have "best_so_far (vs @ [s]) b (nextRound b s)"
      using g1 by (rule good_cong) simp_all
    from "1.IH" [OF False nextRound_bounds_ok [OF "1.prems"(1)] this] False
    show ?thesis by (simp add: visited.simps [of b s] continueRounding.simps [of b s])
  qed
qed

lemma visited_range:
  "bounds_ok b s \<Longrightarrow> v \<in> set (visited b s) \<Longrightarrow>
     0 \<le> trial_idx v \<and> trial_idx v \<le> int (length (remainders b))"
proof (induction b s rule: visited.induct)
  case (1 b s)
  show ?case
  proof (cases "utilization_of b s = last_utilization s")
    case True
    with "1.prems" have "v = s" by (simp add: visited.simps [of b s])
    with "1.prems"(1) trial_idx_range show ?thesis by simp
  next
    case False
    with "1.prems"(2) consider "v = s" | "v \<in> set (visited b (nextRound b s))"
      by (auto simp: visited.simps [of b s])
    then show ?thesis
    proof cases
      case 1
      with "1.prems"(1) trial_idx_range show ?thesis by simp
    next
      case 2
      from "1.IH" [OF False nextRound_bounds_ok [OF "1.prems"(1)] 2] show ?thesis .
    qed
  qed
qed

lemma visited_nonempty: "visited b s \<noteq> []"
  by (subst visited.simps) simp

lemma visited_stop:
  "utilization_of b (last (visited b s)) = last_utilization (last (visited b s))
   \<and> (\<forall>v \<in> set (butlast (visited b s)). utilization_of b v \<noteq> last_utilization v)
   \<and> continueRounding b s = fromReduction b (last (visited b s))"
proof (induction b s rule: visited.induct)
  case (1 b s)
  show ?case
  proof (cases "utilization_of b s = last_utilization s")
    case True
    then show ?thesis by (simp add: visited.simps [of b s] continueRounding.simps [of b s])
  next
    case False
    from "1.IH" [OF False] False visited_nonempty [of b "nextRound b s"] show ?thesis
      by (simp add: visited.simps [of b s] continueRounding.simps [of b s])
  qed
qed

lemma bisect_direction:
  assumes "lower_remainder_idx s < upper_remainder_idx s"
  shows "u > load_target b \<Longrightarrow>
           lower_remainder_idx (bisect b idx u s) = idx + 1
           \<and> upper_remainder_idx (bisect b idx u s) = upper_remainder_idx s"
    and "u < load_target b \<Longrightarrow>
           upper_remainder_idx (bisect b idx u s) = idx - 1
           \<and> lower_remainder_idx (bisect b idx u s) = lower_remainder_idx s"
  using assms by (auto simp: bisect_def Let_def)

lemma nextRound_direction:
  assumes "0 \<le> lower_remainder_idx s" "lower_remainder_idx s < upper_remainder_idx s"
  shows "utilization_of b s > load_target b \<Longrightarrow>
           trial_idx (nextRound b s) > trial_idx s"
    and "utilization_of b s < load_target b \<Longrightarrow>
           trial_idx (nextRound b s) \<le> trial_idx s"
proof -
  note m = sdiv2_mid [OF assms]
  show "trial_idx (nextRound b s) > trial_idx s"
    if "utilization_of b s > load_target b"
  proof -
    from that assms(2) have "lower_remainder_idx (nextRound b s) = trial_idx s + 1"
      "upper_remainder_idx (nextRound b s) = upper_remainder_idx s"
      by (simp_all add: nextRound_def bisect_def Let_def)
    then have "trial_idx (nextRound b s) = (trial_idx s + 1 + upper_remainder_idx s) sdiv 2"
      by (simp add: trial_idx_def [of "nextRound b s"])
    with m(2) show ?thesis by (simp add: trial_idx_def [of s])
  qed
  show "trial_idx (nextRound b s) \<le> trial_idx s"
    if "utilization_of b s < load_target b"
  proof -
    from that assms(2) have "lower_remainder_idx (nextRound b s) = lower_remainder_idx s"
      "upper_remainder_idx (nextRound b s) = trial_idx s - 1"
      by (simp_all add: nextRound_def bisect_def Let_def)
    then have "trial_idx (nextRound b s) = (lower_remainder_idx s + (trial_idx s - 1)) sdiv 2"
      by (simp add: trial_idx_def [of "nextRound b s"])
    with m(3) show ?thesis by (simp add: trial_idx_def [of s])
  qed
qed



lemma visited_bounds_ok:
  "bounds_ok b s \<Longrightarrow> v \<in> set (visited b s) \<Longrightarrow> bounds_ok b v"
proof (induction b s rule: visited.induct)
  case (1 b s)
  show ?case
  proof (cases "utilization_of b s = last_utilization s")
    case True
    with "1.prems" show ?thesis by (simp add: visited.simps [of b s])
  next
    case False
    with "1.prems"(2) consider "v = s" | "v \<in> set (visited b (nextRound b s))"
      by (auto simp: visited.simps [of b s])
    then show ?thesis
    proof cases
      case 1
      with "1.prems"(1) show ?thesis by simp
    next
      case 2
      from "1.IH" [OF False nextRound_bounds_ok [OF "1.prems"(1)] 2] show ?thesis .
    qed
  qed
qed

lemma startRounding_ok: "bounds_ok b (startRounding b s0)" "best_so_far [] b (startRounding b s0)"
  by (simp_all add: bounds_ok_def startRounding_def best_so_far_def)

lemma allReduce_sum:
  "idx \<le> int (length (remainders b)) \<Longrightarrow>
   allReduce b idx
     = (\<Sum>a\<leftarrow>fleet b. \<Sum>(j, x)\<leftarrow>a. round1 (trial_remainder (remainders b) idx) x)"
proof -
  assume i: "idx \<le> int (length (remainders b))"
  have "localSum (remainders b) idx a
      = (\<Sum>(j, x)\<leftarrow>a. round1 (trial_remainder (remainders b) idx) x)" for a
    using i by (simp add: localSum_def getRoundedAssignments_def Let_def comp_def case_prod_unfold)
  then have "localSum (remainders b) idx
      = (\<lambda>a. \<Sum>(j, x)\<leftarrow>a. round1 (trial_remainder (remainders b) idx) x)"
    by (rule ext)
  then show ?thesis by (simp add: allReduce_def)
qed

text \<open>
  Claim C1, as the code has it. N\<cdot>L is the product of the communicator size and the load
  factor in single precision, and the utilization u of an iteration is the reduced sum
  in single precision. In every iteration of the bisection rounding the trial index lies
  within the sequence of remainders or at its end, and the reduced sum is the sum over
  all workers of their assignments, a non-negative assignment being rounded up exactly
  if its fractional part is at least the trial remainder. If u exceeds N\<cdot>L while the
  lower bound is below the upper one, the lower bound moves above the trial index and
  the next trial index is larger; if u is below N\<cdot>L, the upper bound moves below the
  trial index and the next trial index is not larger. The loop always ends, at the first
  iteration whose utilization equals that of the iteration before it (0 before the
  first). The stored index is that of an iteration that no other iteration is preferred
  to, where, with d the difference N\<cdot>L - u in single precision, an iteration with
  d > -1 is preferred to every iteration with d \<le> -1, the former among themselves by
  smaller |d| and the latter by smaller oversubscription. Where remainders exist, every
  assignment of every worker is replaced by its rounding at the stored index; where none
  exist the assignments stay as they are.
\<close>

theorem bisection_rounding:
  fixes b :: Balancer and s0 :: Rounding
  defines "s \<equiv> startRounding b s0"
  defines "NL \<equiv> load_target b"
  shows
  "(\<forall>v \<in> set (visited b s).
       0 \<le> trial_idx v \<and> trial_idx v \<le> int (length (remainders b))
     \<and> utilization_of b v = fl32 (of_int (\<Sum>a\<leftarrow>fleet b. \<Sum>(j, x)\<leftarrow>a.
           round1 (trial_remainder (remainders b) (trial_idx v)) x))
     \<and> (lower_remainder_idx v < upper_remainder_idx v \<and> utilization_of b v > NL \<longrightarrow>
           lower_remainder_idx (nextRound b v) = trial_idx v + 1
           \<and> upper_remainder_idx (nextRound b v) = upper_remainder_idx v
           \<and> trial_idx (nextRound b v) > trial_idx v)
     \<and> (lower_remainder_idx v < upper_remainder_idx v \<and> utilization_of b v < NL \<longrightarrow>
           upper_remainder_idx (nextRound b v) = trial_idx v - 1
           \<and> lower_remainder_idx (nextRound b v) = lower_remainder_idx v
           \<and> trial_idx (nextRound b v) \<le> trial_idx v)
     \<and> last_utilization (nextRound b v) = utilization_of b v)
   \<and> (\<forall>x remainder. 0 \<le> x \<longrightarrow>
         round1 remainder x = (if x - of_int \<lfloor>x\<rfloor> \<ge> remainder then \<lceil>x\<rceil> else \<lfloor>x\<rfloor>))
   \<and> utilization_of b (last (visited b s)) = last_utilization (last (visited b s))
   \<and> (\<forall>v \<in> set (butlast (visited b s)). utilization_of b v \<noteq> last_utilization v)
   \<and> continueRounding b s = fromReduction b (last (visited b s))
   \<and> best_among (visited b s) b (continueRounding b s)
   \<and> best_remainder_idx (continueRounding b s) \<le> int (length (remainders b))
   \<and> fst (bisectionRounding b s0)
       = (if remainders b = [] then fleet b
          else map (map (\<lambda>(j, x). (j, of_int (round1 (trial_remainder (remainders b)
                      (best_remainder_idx (continueRounding b s))) x)))) (fleet b))"
proof -
  have ok: "bounds_ok b s" "best_so_far [] b s" unfolding s_def by (rule startRounding_ok)+
  have per: "0 \<le> trial_idx v \<and> trial_idx v \<le> int (length (remainders b))
     \<and> utilization_of b v = fl32 (of_int (\<Sum>a\<leftarrow>fleet b. \<Sum>(j, x)\<leftarrow>a.
           round1 (trial_remainder (remainders b) (trial_idx v)) x))
     \<and> (lower_remainder_idx v < upper_remainder_idx v \<and> utilization_of b v > NL \<longrightarrow>
           lower_remainder_idx (nextRound b v) = trial_idx v + 1
           \<and> upper_remainder_idx (nextRound b v) = upper_remainder_idx v
           \<and> trial_idx (nextRound b v) > trial_idx v)
     \<and> (lower_remainder_idx v < upper_remainder_idx v \<and> utilization_of b v < NL \<longrightarrow>
           upper_remainder_idx (nextRound b v) = trial_idx v - 1
           \<and> lower_remainder_idx (nextRound b v) = lower_remainder_idx v
           \<and> trial_idx (nextRound b v) \<le> trial_idx v)
     \<and> last_utilization (nextRound b v) = utilization_of b v"
    if v: "v \<in> set (visited b s)" for v
  proof -
    have bv: "bounds_ok b v" using visited_bounds_ok [OF ok(1) v] .
    note rg = trial_idx_range [OF bv]
    have l0: "0 \<le> lower_remainder_idx v" using bv by (simp add: bounds_ok_def)
    have u: "utilization_of b v = fl32 (of_int (\<Sum>a\<leftarrow>fleet b. \<Sum>(j, x)\<leftarrow>a.
           round1 (trial_remainder (remainders b) (trial_idx v)) x))"
      using allReduce_sum [OF rg(2)] by (simp add: utilization_of_def)
    have up: "lower_remainder_idx (nextRound b v) = trial_idx v + 1
           \<and> upper_remainder_idx (nextRound b v) = upper_remainder_idx v
           \<and> trial_idx (nextRound b v) > trial_idx v"
      if "lower_remainder_idx v < upper_remainder_idx v" "utilization_of b v > NL"
      using nextRound_direction(1) [OF l0 that(1), of b] that
      by (simp add: NL_def nextRound_def bisect_def Let_def)
    have down: "upper_remainder_idx (nextRound b v) = trial_idx v - 1
           \<and> lower_remainder_idx (nextRound b v) = lower_remainder_idx v
           \<and> trial_idx (nextRound b v) \<le> trial_idx v"
      if "lower_remainder_idx v < upper_remainder_idx v" "utilization_of b v < NL"
      using nextRound_direction(2) [OF l0 that(1), of b] that
      by (simp add: NL_def nextRound_def bisect_def Let_def)
    have lst: "last_utilization (nextRound b v) = utilization_of b v"
      by (simp add: nextRound_def bisect_def Let_def)
    from rg u up down lst show ?thesis by blast
  qed
  have g: "best_so_far (visited b s) b (continueRounding b s)"
    using continueRounding_good [OF ok] by simp
  then have ba: "best_among (visited b s) b (continueRounding b s)"
    using visited_nonempty [of b s] by (simp add: best_so_far_def)
  from ba obtain v where v: "v \<in> set (visited b s)"
    "best_remainder_idx (continueRounding b s) = trial_idx v"
    by (auto simp: best_among_def)
  from per [OF v(1)] v(2)
  have bi: "best_remainder_idx (continueRounding b s) \<le> int (length (remainders b))" by simp
  have ap: "fst (bisectionRounding b s0)
       = (if remainders b = [] then fleet b
          else map (map (\<lambda>(j, x). (j, of_int (round1 (trial_remainder (remainders b)
                      (best_remainder_idx (continueRounding b s))) x)))) (fleet b))"
    using bi
    by (simp add: bisectionRounding_def Let_def s_def applyBest_def getRoundedAssignments_def
        case_prod_beta comp_def)
  from per round1_nonneg visited_stop [of b s] ba bi ap show ?thesis by blast
qed

lemmas round_defs = utilization_of_def allReduce_def localSum_def getRoundedAssignments_def
  trial_remainder_def round1_def trunc_def trial_idx_def nextRound_def bisect_def
  fromReduction_def storeBest_def startRounding_def load_target_def diff_of_def
  ex_balancer_def ex_float_balancer_def ex_rounding_def signed_divide_int_def Let_def
  fl32_numeral

lemma fl32_three: "fl32 (201326595 / 67108864) = 3"
proof -
  have "fl32 (201326595 / 67108864) = of_int (3 * 2 ^ 22) * 2 powi (1 - 23)"
    by (rule fl32_near) (simp_all add: fl_eval)
  also have "\<dots> = 3" by (simp add: fl_eval)
  finally show ?thesis .
qed

lemma ex_target: "load_target ex_balancer = 4" "load_target ex_float_balancer = 3"
  by (simp_all add: load_target_def ex_balancer_def ex_float_balancer_def fl32_numeral
      fl32_tenth fl32_three)

lemma ex_s0:
  "startRounding ex_balancer ex_rounding
     = \<lparr>lower_remainder_idx = 0, upper_remainder_idx = 3, last_utilization = 0,
         best_remainder_idx = - 1, best_utilization_diff = 0, best_utilization = 0,
         rounding_iterations = 0\<rparr>"
  by (simp add: startRounding_def ex_balancer_def ex_rounding_def)

lemma ex_s1:
  "nextRound ex_balancer \<lparr>lower_remainder_idx = 0, upper_remainder_idx = 3, last_utilization = 0,
         best_remainder_idx = - 1, best_utilization_diff = 0, best_utilization = 0,
         rounding_iterations = 0\<rparr>
     = \<lparr>lower_remainder_idx = 2, upper_remainder_idx = 3, last_utilization = 5,
         best_remainder_idx = 1, best_utilization_diff = - 1, best_utilization = 5,
         rounding_iterations = 1\<rparr>"
  by (simp add: round_defs)

lemma ex_s2:
  "nextRound ex_balancer \<lparr>lower_remainder_idx = 2, upper_remainder_idx = 3, last_utilization = 5,
         best_remainder_idx = 1, best_utilization_diff = - 1, best_utilization = 5,
         rounding_iterations = 1\<rparr>
     = \<lparr>lower_remainder_idx = 2, upper_remainder_idx = 3, last_utilization = 4,
         best_remainder_idx = 2, best_utilization_diff = 0, best_utilization = 4,
         rounding_iterations = 2\<rparr>"
  by (simp add: round_defs)

lemma ex_u:
  "utilization_of ex_balancer \<lparr>lower_remainder_idx = 0, upper_remainder_idx = 3, last_utilization = 0,
         best_remainder_idx = - 1, best_utilization_diff = 0, best_utilization = 0,
         rounding_iterations = 0\<rparr> = 5"
  "utilization_of ex_balancer \<lparr>lower_remainder_idx = 2, upper_remainder_idx = 3, last_utilization = 5,
         best_remainder_idx = 1, best_utilization_diff = - 1, best_utilization = 5,
         rounding_iterations = 1\<rparr> = 4"
  "utilization_of ex_balancer \<lparr>lower_remainder_idx = 2, upper_remainder_idx = 3, last_utilization = 4,
         best_remainder_idx = 2, best_utilization_diff = 0, best_utilization = 4,
         rounding_iterations = 2\<rparr> = 4"
  by (simp_all add: round_defs)

lemma ex_rounding_run:
  "continueRounding ex_balancer (startRounding ex_balancer ex_rounding)
     = \<lparr>lower_remainder_idx = 2, upper_remainder_idx = 3, last_utilization = 4,
         best_remainder_idx = 2, best_utilization_diff = 0, best_utilization = 4,
         rounding_iterations = 3\<rparr>"
  unfolding ex_s0
  apply (subst continueRounding.simps, simp only: ex_u ex_s1)
  apply (subst continueRounding.simps, simp only: ex_u ex_s2)
  apply (subst continueRounding.simps, simp only: ex_u)
  apply (simp add: round_defs)
  done


lemma ex_f0:
  "startRounding ex_float_balancer ex_rounding
     = \<lparr>lower_remainder_idx = 0, upper_remainder_idx = 1, last_utilization = 0,
         best_remainder_idx = - 1, best_utilization_diff = 0, best_utilization = 0,
         rounding_iterations = 0\<rparr>"
  by (simp add: startRounding_def ex_float_balancer_def ex_rounding_def)

lemmas float_defs = utilization_of_def allReduce_def localSum_def getRoundedAssignments_def
  trial_remainder_def round1_def trunc_def trial_idx_def nextRound_def bisect_def
  fromReduction_def storeBest_def ex_target signed_divide_int_def Let_def fl32_numeral

lemma ex_f_fleet: "remainders ex_float_balancer = [1 / 2]"
  "fleet ex_float_balancer = [[(1, 3 / 2), (2, 3 / 2)]]"
  by (simp_all add: ex_float_balancer_def)

lemma ex_fu:
  "utilization_of ex_float_balancer \<lparr>lower_remainder_idx = 0, upper_remainder_idx = 1,
         last_utilization = 0,
         best_remainder_idx = - 1, best_utilization_diff = 0, best_utilization = 0,
         rounding_iterations = 0\<rparr> = 4"
  "utilization_of ex_float_balancer \<lparr>lower_remainder_idx = 1, upper_remainder_idx = 1,
         last_utilization = 4,
         best_remainder_idx = 0, best_utilization_diff = - 1, best_utilization = 4,
         rounding_iterations = 1\<rparr> = 2"
  "utilization_of ex_float_balancer \<lparr>lower_remainder_idx = 1, upper_remainder_idx = 1,
         last_utilization = 2,
         best_remainder_idx = 1, best_utilization_diff = 1, best_utilization = 2,
         rounding_iterations = 2\<rparr> = 2"
  by (simp_all add: float_defs ex_f_fleet)

lemma ex_f1:
  "nextRound ex_float_balancer \<lparr>lower_remainder_idx = 0, upper_remainder_idx = 1,
         last_utilization = 0,
         best_remainder_idx = - 1, best_utilization_diff = 0, best_utilization = 0,
         rounding_iterations = 0\<rparr>
     = \<lparr>lower_remainder_idx = 1, upper_remainder_idx = 1, last_utilization = 4,
         best_remainder_idx = 0, best_utilization_diff = - 1, best_utilization = 4,
         rounding_iterations = 1\<rparr>"
  by (simp add: float_defs ex_f_fleet)

lemma ex_f2:
  "nextRound ex_float_balancer \<lparr>lower_remainder_idx = 1, upper_remainder_idx = 1,
         last_utilization = 4,
         best_remainder_idx = 0, best_utilization_diff = - 1, best_utilization = 4,
         rounding_iterations = 1\<rparr>
     = \<lparr>lower_remainder_idx = 1, upper_remainder_idx = 1, last_utilization = 2,
         best_remainder_idx = 1, best_utilization_diff = 1, best_utilization = 2,
         rounding_iterations = 2\<rparr>"
  by (simp add: float_defs ex_f_fleet)

lemma ex_float_run:
  "continueRounding ex_float_balancer (startRounding ex_float_balancer ex_rounding)
     = \<lparr>lower_remainder_idx = 1, upper_remainder_idx = 1, last_utilization = 2,
         best_remainder_idx = 1, best_utilization_diff = 1, best_utilization = 2,
         rounding_iterations = 3\<rparr>"
  unfolding ex_f0
  apply (subst continueRounding.simps, simp only: ex_fu ex_f1)
  apply (subst continueRounding.simps, simp only: ex_fu ex_f2)
  apply (subst continueRounding.simps, simp only: ex_fu)
  apply (simp add: float_defs ex_f_fleet)
  done


lemma ex_rounding_first:
  "trial_idx (startRounding ex_balancer ex_rounding) = 1"
  "utilization_of ex_balancer (startRounding ex_balancer ex_rounding) = 5"
  by (simp_all add: round_defs)

text \<open>
  The claim as the specification states it (the trial index is reduced when the
  utilization exceeds N\<cdot>L) fails: in the first example the first trial index is 1, the
  utilization 5 exceeds N\<cdot>L = 4, and the next trial index is 2.
\<close>

theorem bisection_direction_counterexample:
  "lower_remainder_idx (startRounding ex_balancer ex_rounding)
     < upper_remainder_idx (startRounding ex_balancer ex_rounding)
   \<and> load_target ex_balancer = 4
   \<and> utilization_of ex_balancer (startRounding ex_balancer ex_rounding) = 5
   \<and> utilization_of ex_balancer (startRounding ex_balancer ex_rounding)
       > load_target ex_balancer
   \<and> trial_idx (startRounding ex_balancer ex_rounding) = 1
   \<and> trial_idx (nextRound ex_balancer (startRounding ex_balancer ex_rounding)) = 2"
  unfolding ex_s0 ex_s1 ex_u ex_target by (simp add: trial_idx_def signed_divide_int_def)

text \<open>
  The runs of the examples. In the first, the first iteration exceeds N\<cdot>L, the second and
  third have utilization 4 at index 2, which is applied. In the second, N\<cdot>L is 3 in
  single precision (the exact product is above 3), so that the first iteration, with
  utilization 4, counts as oversubscribing by a whole worker, and index 1 with
  utilization 2 is applied.
\<close>

theorem bisection_rounding_witness:
  "startRounding ex_balancer ex_rounding
     \<in> set (visited ex_balancer (startRounding ex_balancer ex_rounding))
   \<and> lower_remainder_idx (startRounding ex_balancer ex_rounding)
       < upper_remainder_idx (startRounding ex_balancer ex_rounding)
   \<and> utilization_of ex_balancer (startRounding ex_balancer ex_rounding)
       > load_target ex_balancer
   \<and> lower_remainder_idx (nextRound ex_balancer (startRounding ex_balancer ex_rounding))
       = trial_idx (startRounding ex_balancer ex_rounding) + 1
   \<and> trial_idx (nextRound ex_balancer (startRounding ex_balancer ex_rounding))
       > trial_idx (startRounding ex_balancer ex_rounding)
   \<and> last_utilization (nextRound ex_balancer (startRounding ex_balancer ex_rounding)) = 5
   \<and> (0::real) \<le> 7 / 4 \<and> round1 (3 / 4) (7 / 4) = 2
   \<and> best_remainder_idx (continueRounding ex_balancer (startRounding ex_balancer ex_rounding)) = 2
   \<and> best_utilization (continueRounding ex_balancer (startRounding ex_balancer ex_rounding)) = 4
   \<and> remainders ex_balancer \<noteq> []
   \<and> fst (bisectionRounding ex_balancer ex_rounding) = [[(1, 1), (2, 1)], [(3, 2)]]
   \<and> load_target ex_float_balancer = 3
   \<and> best_remainder_idx
        (continueRounding ex_float_balancer (startRounding ex_float_balancer ex_rounding)) = 1
   \<and> best_utilization_diff
        (continueRounding ex_float_balancer (startRounding ex_float_balancer ex_rounding)) = 1
   \<and> remainders ex_float_balancer \<noteq> []
   \<and> fst (bisectionRounding ex_float_balancer ex_rounding) = [[(1, 1), (2, 1)]]"
proof -
  let ?s = "startRounding ex_balancer ex_rounding"
  note t = bisection_rounding [of ex_balancer ex_rounding]
  note tf = bisection_rounding [of ex_float_balancer ex_rounding]
  have m: "?s \<in> set (visited ex_balancer ?s)"
    by (subst visited.simps) simp
  have h: "lower_remainder_idx ?s < upper_remainder_idx ?s"
    "utilization_of ex_balancer ?s > load_target ex_balancer"
    unfolding ex_s0 ex_u ex_target by simp_all
  from t have per: "\<forall>v \<in> set (visited ex_balancer ?s).
      (lower_remainder_idx v < upper_remainder_idx v
         \<and> utilization_of ex_balancer v > load_target ex_balancer \<longrightarrow>
           lower_remainder_idx (nextRound ex_balancer v) = trial_idx v + 1
           \<and> upper_remainder_idx (nextRound ex_balancer v) = upper_remainder_idx v
           \<and> trial_idx (nextRound ex_balancer v) > trial_idx v)
      \<and> last_utilization (nextRound ex_balancer v) = utilization_of ex_balancer v"
    by blast
  from per m h have d: "lower_remainder_idx (nextRound ex_balancer ?s) = trial_idx ?s + 1"
    "trial_idx (nextRound ex_balancer ?s) > trial_idx ?s"
    "last_utilization (nextRound ex_balancer ?s) = 5"
    using ex_rounding_first(2) by auto
  from t have r: "\<forall>x remainder. 0 \<le> x \<longrightarrow>
         round1 remainder x = (if x - of_int \<lfloor>x\<rfloor> \<ge> remainder then \<lceil>x\<rceil> else \<lfloor>x\<rfloor>)"
    by blast
  have r1: "round1 (3 / 4) (7 / 4) = 2" using r [rule_format, of "7 / 4" "3 / 4"] by simp
  have ne: "remainders ex_balancer \<noteq> []" "remainders ex_float_balancer \<noteq> []"
    by (simp_all add: ex_balancer_def ex_float_balancer_def)
  from t ne(1) have "fst (bisectionRounding ex_balancer ex_rounding)
      = map (map (\<lambda>(j, x). (j, of_int (round1 (trial_remainder (remainders ex_balancer)
           (best_remainder_idx (continueRounding ex_balancer ?s))) x)))) (fleet ex_balancer)"
    by simp
  then have a: "fst (bisectionRounding ex_balancer ex_rounding) = [[(1, 1), (2, 1)], [(3, 2)]]"
    unfolding ex_rounding_run
    by (simp add: ex_balancer_def trial_remainder_def round1_def trunc_def)
  from tf ne(2) have "fst (bisectionRounding ex_float_balancer ex_rounding)
      = map (map (\<lambda>(j, x). (j, of_int (round1 (trial_remainder (remainders ex_float_balancer)
           (best_remainder_idx (continueRounding ex_float_balancer
              (startRounding ex_float_balancer ex_rounding)))) x)))) (fleet ex_float_balancer)"
    by simp
  then have af: "fst (bisectionRounding ex_float_balancer ex_rounding) = [[(1, 1), (2, 1)]]"
    unfolding ex_float_run
    by (simp add: ex_f_fleet trial_remainder_def round1_def trunc_def)
  show ?thesis using m h d r1 a af ne ex_rounding_run ex_float_run ex_target by simp
qed

subsection \<open>Merging clause buffers\<close>


















end
